theory Spec2Isabelle
  imports Complex_Main "HOL-Library.Word" "HOL-Library.List_Lexorder" "HOL-Library.Multiset"
    "HOL-Library.Log_Nat"
begin

section \<open>JavaScript values used by the extension host auto profiler\<close>

text \<open>
  The class \<^verbatim>\<open>ExtensionsAutoProfiler\<close> (extensionsAutoProfiler.ts) computes with
  JavaScript numbers and strings.

  \<^item> A string is its sequence of 16-bit code units; \<^verbatim>\<open>===\<close> on strings is equality
    of these sequences.
  \<^item> A number is a binary64 value: a rational, or one of the three special values of
    IEEE arithmetic. The sum, the difference and the quotient of two rationals are
    rounded to the nearest binary64 value (\<open>binary64\<close> below); the rounding of the two
    quotients is what makes \<^verbatim>\<open>total / (duration / 100)\<close> differ from
    \<^verbatim>\<open>total * 100 / duration\<close>, and the rounding of a sum is what loses a microsecond
    above \<open>2^53\<close>. The deltas and timestamps of a profile are whole microsecond counts.
    The exponent range of binary64 is not modelled (a microsecond count is far from it),
    and neither is the sign of zero (no comparison of the code tells \<open>-0\<close> from \<open>0\<close>).
\<close>

type_synonym jsstring = "16 word list"

definition str :: "string \<Rightarrow> jsstring" where
  "str s = map of_char s"

datatype jsnum = Num rat | PosInf | NegInf | NaN

text \<open>
  Rounding to binary64: a number \<open>x\<close> with \<open>2^e \<le> \<bar>x\<bar> < 2^(e+1)\<close> is rounded to the nearest
  multiple of \<open>2^(e-52)\<close>, a tie going to the even multiple.
\<close>

definition round_half_even :: "rat \<Rightarrow> int" where
  "round_half_even y =
     (let f = \<lfloor>y\<rfloor>; r = y - of_int f
      in if r < 1 / 2 then f else if 1 / 2 < r then f + 1 else if even f then f else f + 1)"

definition exponent :: "rat \<Rightarrow> int" where
  "exponent x =
     (case quotient_of x of (a, b) \<Rightarrow>
        let e = bitlen a - bitlen b in if 2 powi e \<le> x then e else e - 1)"

definition binary64 :: "rat \<Rightarrow> rat" where
  "binary64 x =
     (if x = 0 then 0
      else let ulp = 2 powi (exponent \<bar>x\<bar> - 52)
           in sgn x * (ulp * of_int (round_half_even (\<bar>x\<bar> / ulp))))"

text \<open>
  \<^verbatim>\<open>a + b\<close> and \<^verbatim>\<open>a - b\<close> on numbers: a finite result is rounded, and the sum of the
  two infinities is \<open>NaN\<close>.
\<close>

fun js_add :: "jsnum \<Rightarrow> jsnum \<Rightarrow> jsnum" where
  "js_add (Num a) (Num b) = Num (binary64 (a + b))"
| "js_add NaN _ = NaN"
| "js_add _ NaN = NaN"
| "js_add PosInf NegInf = NaN"
| "js_add NegInf PosInf = NaN"
| "js_add PosInf _ = PosInf"
| "js_add _ PosInf = PosInf"
| "js_add NegInf _ = NegInf"
| "js_add _ NegInf = NegInf"

fun js_sub :: "jsnum \<Rightarrow> jsnum \<Rightarrow> jsnum" where
  "js_sub (Num a) (Num b) = Num (binary64 (a - b))"
| "js_sub NaN _ = NaN"
| "js_sub _ NaN = NaN"
| "js_sub PosInf PosInf = NaN"
| "js_sub NegInf NegInf = NaN"
| "js_sub PosInf _ = PosInf"
| "js_sub _ PosInf = NegInf"
| "js_sub NegInf _ = NegInf"
| "js_sub _ NegInf = PosInf"

text \<open>
  \<^verbatim>\<open>a / b\<close> on numbers. A finite quotient is rounded; a division by zero gives an
  infinity with the sign of the dividend, and \<open>0 / 0\<close> is \<open>NaN\<close>.
\<close>

fun js_div :: "jsnum \<Rightarrow> jsnum \<Rightarrow> jsnum" where
  "js_div (Num a) (Num b) =
     (if b \<noteq> 0 then Num (binary64 (a / b))
      else if 0 < a then PosInf else if a < 0 then NegInf else NaN)"
| "js_div NaN _ = NaN"
| "js_div _ NaN = NaN"
| "js_div (Num a) PosInf = Num 0"
| "js_div (Num a) NegInf = Num 0"
| "js_div PosInf (Num b) = (if 0 \<le> b then PosInf else NegInf)"
| "js_div NegInf (Num b) = (if 0 \<le> b then NegInf else PosInf)"
| "js_div _ _ = NaN"

text \<open>\<^verbatim>\<open>Math.round\<close>: the nearest integer, a tie going up; the special values stay.\<close>

fun Math_round :: "jsnum \<Rightarrow> jsnum" where
  "Math_round (Num a) = Num (of_int \<lfloor>a + 1 / 2\<rfloor>)"
| "Math_round x = x"

text \<open>\<^verbatim>\<open>a < b\<close> and \<^verbatim>\<open>a >= b\<close> on numbers: false as soon as one side is \<open>NaN\<close>.\<close>

fun js_lt :: "jsnum \<Rightarrow> jsnum \<Rightarrow> bool" where
  "js_lt (Num a) (Num b) = (a < b)"
| "js_lt NaN _ = False"
| "js_lt _ NaN = False"
| "js_lt PosInf _ = False"
| "js_lt _ PosInf = True"
| "js_lt _ NegInf = False"
| "js_lt NegInf _ = True"

fun js_ge :: "jsnum \<Rightarrow> jsnum \<Rightarrow> bool" where
  "js_ge (Num a) (Num b) = (b \<le> a)"
| "js_ge NaN _ = False"
| "js_ge _ NaN = False"
| "js_ge PosInf _ = True"
| "js_ge _ NegInf = True"
| "js_ge _ PosInf = False"
| "js_ge NegInf _ = False"

section \<open>The profile and its slices\<close>

text \<open>
  \<^verbatim>\<open>IExtensionHostProfile\<close>: the fields \<^verbatim>\<open>_processCpuProfile\<close> computes with. Its
  payload \<^verbatim>\<open>data\<close> is only serialised to the file the report writes, and is left out.
  The deltas and the two timestamps are whole numbers of microseconds; the class reads
  them as the numbers they are and rounds from its first operation on.
\<close>

record Profile =
  ids :: "jsstring list"
  deltas :: "int list"
  startTime :: int
  endTime :: int

text \<open>The interface \<^verbatim>\<open>NamedSlice\<close> local to \<^verbatim>\<open>_processCpuProfile\<close>.\<close>

record NamedSlice =
  id' :: jsstring
  total :: jsnum
  percentage :: jsnum

section \<open>Building, sorting and merging the slices\<close>

text \<open>
  The first loop pushes one slice per index of \<^verbatim>\<open>profile.ids\<close>. Reading
  \<^verbatim>\<open>profile.deltas[i]\<close> past the end of the array gives \<^verbatim>\<open>undefined\<close>; each use
  of \<^verbatim>\<open>total\<close> in the function is arithmetic or a comparison, where \<^verbatim>\<open>undefined\<close>
  acts as \<open>NaN\<close>, so the model reads \<open>NaN\<close> there.
\<close>

definition read_delta :: "Profile \<Rightarrow> nat \<Rightarrow> jsnum" where
  "read_delta profile i =
     (if i < length (deltas profile) then Num (of_int (deltas profile ! i)) else NaN)"

definition build_data :: "Profile \<Rightarrow> NamedSlice list" where
  "build_data profile =
     map (\<lambda>i. \<lparr>id' = ids profile ! i, total = read_delta profile i, percentage = Num 0\<rparr>)
       [0..<length (ids profile)]"

text \<open>
  \<^verbatim>\<open>data.sort((a, b) => a.id.localeCompare(b.id))\<close>. What \<^verbatim>\<open>localeCompare\<close> returns
  is defined by the host's collation, not by this repository: it is the parameter \<open>lc\<close>
  of the model. \<^verbatim>\<open>Array.prototype.sort\<close> is stable (and was, on arrays of up to ten
  elements, before the language required it): an element goes before the elements that
  follow it in the input and do not compare smaller. Insertion from the right computes
  that list.
\<close>

fun insort_cmp :: "(jsstring \<Rightarrow> jsstring \<Rightarrow> int) \<Rightarrow> NamedSlice \<Rightarrow> NamedSlice list \<Rightarrow> NamedSlice list" where
  "insort_cmp lc a [] = [a]"
| "insort_cmp lc a (b # bs) =
     (if lc (id' a) (id' b) \<le> 0 then a # b # bs else b # insort_cmp lc a bs)"

definition array_sort :: "(jsstring \<Rightarrow> jsstring \<Rightarrow> int) \<Rightarrow> NamedSlice list \<Rightarrow> NamedSlice list" where
  "array_sort lc data = foldr (insort_cmp lc) data []"

text \<open>
  The merge loop, with its two indices:
  \<^verbatim>\<open>
  let anchor = 0;
  for (let i = 1; i < data.length; i++) {
    if (data[anchor].id === data[i].id) { data[anchor].total += data[i].total; }
    else { anchor += 1; data[anchor] = data[i]; }
  }
  data = data.slice(0, anchor + 1);
  \<close>
  After \<^verbatim>\<open>data[anchor] = data[i]\<close> the two cells hold the same object, and a later
  \<^verbatim>\<open>+=\<close> through \<^verbatim>\<open>data[anchor]\<close> changes both; the loop never reads a cell
  below \<open>i\<close> other than \<open>anchor\<close> again, so the list model, which updates only the cell
  at \<open>anchor\<close>, returns the same slices.
\<close>

function merge_loop :: "NamedSlice list \<Rightarrow> nat \<Rightarrow> nat \<Rightarrow> NamedSlice list \<times> nat" where
  "merge_loop data anchor i =
     (if i < length data then
        (if id' (data ! anchor) = id' (data ! i)
         then merge_loop
                (data[anchor := (data ! anchor)\<lparr>total := js_add (total (data ! anchor)) (total (data ! i))\<rparr>])
                anchor (i + 1)
         else merge_loop (data[anchor + 1 := data ! i]) (anchor + 1) (i + 1))
      else (data, anchor))"
  by pat_completeness auto
termination
  by (relation "measure (\<lambda>(data, anchor, i). length data - i)") auto

definition merge_by_id :: "NamedSlice list \<Rightarrow> NamedSlice list" where
  "merge_by_id data = (case merge_loop data 0 1 of (data', anchor) \<Rightarrow> take (anchor + 1) data')"

definition merged_slices :: "(jsstring \<Rightarrow> jsstring \<Rightarrow> int) \<Rightarrow> Profile \<Rightarrow> NamedSlice list" where
  "merged_slices lc profile = merge_by_id (array_sort lc (build_data profile))"

section \<open>Percentages and the top slice\<close>

text \<open>
  \<^verbatim>\<open>
  for (const slice of data) {
    slice.percentage = Math.round(slice.total / percentage);
    if (!top || top.percentage < slice.percentage) { top = slice; }
  }
  \<close>
  The loop returns the slices with their percentages set, and \<^verbatim>\<open>top\<close>
  (\<open>None\<close> for \<^verbatim>\<open>undefined\<close>).
\<close>

fun percent_loop :: "jsnum \<Rightarrow> NamedSlice list \<Rightarrow> NamedSlice option \<Rightarrow> NamedSlice list \<times> NamedSlice option" where
  "percent_loop pc [] top' = ([], top')"
| "percent_loop pc (s # rest) top' =
     (let s' = s\<lparr>percentage := Math_round (js_div (total s) pc)\<rparr>;
          top'' = (case top' of
                     None \<Rightarrow> Some s'
                   | Some t \<Rightarrow> if js_lt (percentage t) (percentage s') then Some s' else Some t);
          (rest', top''') = percent_loop pc rest top''
      in (s' # rest', top'''))"

text \<open>
  What \<^verbatim>\<open>_processCpuProfile\<close> hands to the continuation of
  \<^verbatim>\<open>getExtension(top.id)\<close>: the identifier from \<^verbatim>\<open>generateUuid()\<close>, the duration,
  the slices and the top slice.
\<close>

record Report =
  report_id :: nat
  duration :: jsnum
  slices :: "NamedSlice list"
  top_slice :: NamedSlice

text \<open>
  The synchronous part of \<^verbatim>\<open>_processCpuProfile\<close>, with
  \<^verbatim>\<open>const duration = profile.endTime - profile.startTime\<close>: \<open>None\<close> is the early
  \<^verbatim>\<open>return\<close> at \<^verbatim>\<open>if (!top)\<close>, \<open>Some r\<close> the call of
  \<^verbatim>\<open>getExtension(top.id).then(...)\<close> with the values its callback closes over.
\<close>

definition processCpuProfile :: "(jsstring \<Rightarrow> jsstring \<Rightarrow> int) \<Rightarrow> nat \<Rightarrow> Profile \<Rightarrow> Report option" where
  "processCpuProfile lc uuid profile =
     (let data = merged_slices lc profile;
          duration = js_sub (Num (of_int (endTime profile))) (Num (of_int (startTime profile)));
          percentage = js_div duration (Num 100)
      in case percent_loop percentage data None of
           (data', None) \<Rightarrow> None
         | (data', Some t) \<Rightarrow>
             Some \<lparr>report_id = uuid, duration = duration, slices = data', top_slice = t\<rparr>)"

section \<open>A comparator that honours canonical equivalence\<close>

text \<open>
  The language standard requires of \<^verbatim>\<open>localeCompare\<close> that it be a consistent
  comparison function on all strings and that it return \<open>0\<close> on strings that are
  canonically equivalent in Unicode, also when their code units differ. The comparator
  below is an instance of the parameter \<open>lc\<close> with both properties, for one
  equivalence: \<open>U+0065 U+0301\<close> (e, combining acute accent) composes to \<open>U+00E9\<close>.
  It compares the composed strings by their code units.
\<close>

fun compose_canon :: "jsstring \<Rightarrow> jsstring" where
  "compose_canon (a # b # cs) =
     (if a = 0x65 \<and> b = 0x301 then 0xE9 # compose_canon cs else a # compose_canon (b # cs))"
| "compose_canon cs = cs"

definition compare_units :: "jsstring \<Rightarrow> jsstring \<Rightarrow> int" where
  "compare_units a b = (if a < b then - 1 else if a = b then 0 else 1)"

definition canonCompare :: "jsstring \<Rightarrow> jsstring \<Rightarrow> int" where
  "canonCompare a b = compare_units (compose_canon a) (compose_canon b)"

section \<open>The report\<close>

text \<open>
  The effects of the class on its collaborators, in the order of the calls. A target is
  an object, compared by reference (the type \<open>'t\<close>); a cancellation token source and
  the invocation that created it are named by a number.
\<close>

record IExtensionDescription =
  extension_id :: jsstring
  name :: jsstring
  displayName :: "jsstring option"

datatype 't effect =
    StartExtensionHostProfile 't
  | Cancel nat
  | SessionStop nat
  | OnUnexpectedError
  | GetExtension jsstring
  | SetUnresponsiveProfile jsstring
  | NotificationPrompt jsstring jsnum
  | WriteFile nat
  | LogWarn jsstring jsnum jsnum nat "NamedSlice list"
  | PublicLog nat jsnum "NamedSlice list" bool

text \<open>\<^verbatim>\<open>const prompt = top.percentage >= 99 && top.total >= 5e6\<close>\<close>

definition prompt :: "Report \<Rightarrow> bool" where
  "prompt r =
     (js_ge (percentage (top_slice r)) (Num 99) \<and> js_ge (total (top_slice r)) (Num 5000000))"

text \<open>\<^verbatim>\<open>extension.displayName || extension.name\<close>: an empty string is falsy.\<close>

definition display_name :: "IExtensionDescription \<Rightarrow> jsstring" where
  "display_name extension =
     (case displayName extension of
        None \<Rightarrow> name extension
      | Some d \<Rightarrow> if d = [] then name extension else d)"

text \<open>
  The callback of \<^verbatim>\<open>getExtension(top.id).then(...)\<close>. It stops at once when the
  identifier resolves to no extension, and after the write when \<^verbatim>\<open>writeFile\<close>
  fails (\<open>written\<close> is false). \<open>path\<close> stands for the random file name. The action of
  the prompt, which logs \<^verbatim>\<open>exthostunresponsive-more\<close>, runs only when the user picks it
  and is not modelled.
\<close>

definition report_callback :: "Report \<Rightarrow> IExtensionDescription option \<Rightarrow> nat \<Rightarrow> bool \<Rightarrow> 't effect list" where
  "report_callback r extension path written =
     (case extension of
        None \<Rightarrow> []
      | Some e \<Rightarrow>
          [SetUnresponsiveProfile (extension_id e)]
          @ (if prompt r
             then [NotificationPrompt (display_name e) (Math_round (js_div (duration r) (Num 1000000)))]
             else [])
          @ [WriteFile path]
          @ (if written
             then [LogWarn (id' (top_slice r)) (percentage (top_slice r))
                     (js_div (duration r) (Num 1000)) path (slices r),
                   PublicLog (report_id r) (duration r) (slices r) (prompt r)]
             else []))"

section \<open>The sessions\<close>

text \<open>
  \<^verbatim>\<open>_onDidChangeResponsiveChange\<close> is an async function: it runs to its first
  \<^verbatim>\<open>await\<close>, and each later piece runs when the awaited promise settles. JavaScript
  runs one such piece at a time, so the class is a transition system whose steps are
  these pieces. An invocation that is suspended at an \<^verbatim>\<open>await\<close> is a task; it is
  keyed by the number of the token it created.
\<close>

datatype phase = AwaitStart | Waiting | AwaitStop

record 't state =
  session :: "'t \<rightharpoonup> nat"
  cancelled :: "nat set"
  tasks :: "nat \<rightharpoonup> 't \<times> phase"
  pending :: "Report list"
  next_token :: nat
  effects :: "'t effect list"

text \<open>
  What the environment does:
  \<^item> \<open>ResponsiveChange target can isResponsive\<close>: the event \<open>{target, isResponsive}\<close>
    is delivered, and \<^verbatim>\<open>target.canProfileExtensionHost()\<close> answers \<open>can\<close>;
  \<^item> \<open>StartSettled k ok\<close>: the promise of \<^verbatim>\<open>target.startExtensionHostProfile()\<close> that
    task \<open>k\<close> awaits is fulfilled (\<open>ok\<close>) or rejected;
  \<^item> \<open>WaitResolved k\<close>: the promise of the wait of task \<open>k\<close> resolves, by the
    cancellation listener or by the timer of 5000 ms;
  \<^item> \<open>StopSettled k result uuid\<close>: the promise of \<^verbatim>\<open>session.stop()\<close> of task \<open>k\<close>
    is fulfilled with a profile or rejected (\<open>None\<close>); \<open>uuid\<close> is what
    \<^verbatim>\<open>generateUuid()\<close> returns;
  \<^item> \<open>ExtensionSettled i extension path written\<close>: the \<open>i\<close>-th outstanding
    \<^verbatim>\<open>getExtension\<close> promise resolves, and its callback runs.
\<close>

datatype 't action =
    ResponsiveChange 't bool bool
  | StartSettled nat bool
  | WaitResolved nat
  | StopSettled nat "Profile option" nat
  | ExtensionSettled nat "IExtensionDescription option" nat bool

definition initial_state :: "'t state" where
  "initial_state =
     \<lparr>session = Map.empty, cancelled = {}, tasks = Map.empty, pending = [],
      next_token = 0, effects = []\<rparr>"

text \<open>
  One piece of the class for each action. An action that no task is waiting for changes
  nothing.
\<close>

fun step :: "(jsstring \<Rightarrow> jsstring \<Rightarrow> int) \<Rightarrow> 't state \<Rightarrow> 't action \<Rightarrow> 't state" where
  "step lc s (ResponsiveChange target can isResponsive) =
     (if \<not> can then s
      else if isResponsive \<and> session s target \<noteq> None then
        (case session s target of
           None \<Rightarrow> s
         | Some tok \<Rightarrow> s\<lparr>cancelled := insert tok (cancelled s), effects := effects s @ [Cancel tok]\<rparr>)
      else if \<not> isResponsive \<and> session s target = None then
        s\<lparr>session := (session s)(target \<mapsto> next_token s),
          tasks := (tasks s)(next_token s \<mapsto> (target, AwaitStart)),
          next_token := Suc (next_token s),
          effects := effects s @ [StartExtensionHostProfile target]\<rparr>
      else s)"
| "step lc s (StartSettled k ok) =
     (case tasks s k of
        Some (target, AwaitStart) \<Rightarrow>
          if ok then s\<lparr>tasks := (tasks s)(k \<mapsto> (target, Waiting))\<rparr>
          else s\<lparr>session := (session s)(target := None), tasks := (tasks s)(k := None)\<rparr>
      | _ \<Rightarrow> s)"
| "step lc s (WaitResolved k) =
     (case tasks s k of
        Some (target, Waiting) \<Rightarrow>
          s\<lparr>tasks := (tasks s)(k \<mapsto> (target, AwaitStop)), effects := effects s @ [SessionStop k]\<rparr>
      | _ \<Rightarrow> s)"
| "step lc s (StopSettled k result uuid) =
     (case tasks s k of
        Some (target, AwaitStop) \<Rightarrow>
          (let s' = (case result of
                       None \<Rightarrow> s\<lparr>effects := effects s @ [OnUnexpectedError]\<rparr>
                     | Some profile \<Rightarrow>
                         (case processCpuProfile lc uuid profile of
                            None \<Rightarrow> s
                          | Some r \<Rightarrow>
                              s\<lparr>pending := pending s @ [r],
                                effects := effects s @ [GetExtension (id' (top_slice r))]\<rparr>))
           in s'\<lparr>session := (session s')(target := None), tasks := (tasks s')(k := None)\<rparr>)
      | _ \<Rightarrow> s)"
| "step lc s (ExtensionSettled i extension path written) =
     (if i < length (pending s)
      then s\<lparr>pending := take i (pending s) @ drop (Suc i) (pending s),
             effects := effects s @ report_callback (pending s ! i) extension path written\<rparr>
      else s)"

definition run :: "(jsstring \<Rightarrow> jsstring \<Rightarrow> int) \<Rightarrow> 't action list \<Rightarrow> 't state" where
  "run lc acts = foldl (step lc) initial_state acts"

section \<open>The loops as recursions on the list\<close>

text \<open>
  The definitions of this section are not part of the class: they restate its loops as
  structural recursions, and the lemmas \<open>merge_by_id_Cons\<close> and \<open>percent_loop_eq\<close> below
  prove that the loops compute them.

  \<open>absorb add cur rest\<close> is the merge loop seen from the anchor: \<open>cur\<close> is the slice at
  \<open>anchor\<close>, \<open>rest\<close> the slices from \<open>i\<close> on, and \<open>add\<close> the addition. The loop of the
  class is \<open>absorb js_add\<close>.
\<close>

fun absorb :: "(jsnum \<Rightarrow> jsnum \<Rightarrow> jsnum) \<Rightarrow> NamedSlice \<Rightarrow> NamedSlice list \<Rightarrow> NamedSlice list" where
  "absorb add cur [] = [cur]"
| "absorb add cur (x # xs) =
     (if id' cur = id' x then absorb add (cur\<lparr>total := add (total cur) (total x)\<rparr>) xs
      else cur # absorb add x xs)"

text \<open>
  One slice after the body of the percentage loop, and the choice of \<^verbatim>\<open>top\<close> over the
  slices whose percentage is set.
\<close>

definition with_percentage :: "jsnum \<Rightarrow> NamedSlice \<Rightarrow> NamedSlice" where
  "with_percentage pc s = s\<lparr>percentage := Math_round (js_div (total s) pc)\<rparr>"

fun scan_top :: "NamedSlice option \<Rightarrow> NamedSlice list \<Rightarrow> NamedSlice option" where
  "scan_top t [] = t"
| "scan_top t (y # ys) =
     scan_top (case t of
                 None \<Rightarrow> Some y
               | Some t' \<Rightarrow> if js_lt (percentage t') (percentage y) then Some y else Some t') ys"

text \<open>\<^verbatim>\<open>const percentage = duration / 100\<close>\<close>

definition percentage_unit :: "Profile \<Rightarrow> jsnum" where
  "percentage_unit p = js_div (js_sub (Num (of_int (endTime p))) (Num (of_int (startTime p)))) (Num 100)"

section \<open>What the merge is to compute\<close>

text \<open>
  The definitions of this section state the result the merge is meant to have; they are
  not part of the class.

  A comparator is consistent, in the sense the language gives to the argument of
  \<^verbatim>\<open>sort\<close>, when it is reflexive, its sign is reversed when the arguments are
  exchanged, and \<open>\<le>\<close> is transitive.
\<close>

definition consistent :: "(jsstring \<Rightarrow> jsstring \<Rightarrow> int) \<Rightarrow> bool" where
  "consistent lc \<longleftrightarrow>
     (\<forall>a. lc a a = 0)
     \<and> (\<forall>a b. (lc a b < 0) = (0 < lc b a))
     \<and> (\<forall>a b c. lc a b \<le> 0 \<longrightarrow> lc b c \<le> 0 \<longrightarrow> lc a c \<le> 0)"

text \<open>
  The exact sum of two numbers. It is not the addition of the class, which rounds
  (\<open>js_add\<close>): it is the sum in which the results of this section are stated, written
  \<open>+\<close>, and \<open>absorb (+)\<close> is the merge that would add exactly.
\<close>

fun exact_add :: "jsnum \<Rightarrow> jsnum \<Rightarrow> jsnum" where
  "exact_add (Num a) (Num b) = Num (a + b)"
| "exact_add NaN _ = NaN"
| "exact_add _ NaN = NaN"
| "exact_add PosInf NegInf = NaN"
| "exact_add NegInf PosInf = NaN"
| "exact_add PosInf _ = PosInf"
| "exact_add _ PosInf = PosInf"
| "exact_add NegInf _ = NegInf"
| "exact_add _ NegInf = NegInf"

instantiation jsnum :: comm_monoid_add
begin

definition zero_jsnum :: jsnum where
  "zero_jsnum = Num 0"

definition plus_jsnum :: "jsnum \<Rightarrow> jsnum \<Rightarrow> jsnum" where
  "plus_jsnum = exact_add"

instance
proof
  fix a b c :: jsnum
  show "a + b + c = a + (b + c)"
    unfolding plus_jsnum_def by (cases a; cases b; cases c) simp_all
  show "a + b = b + a"
    unfolding plus_jsnum_def by (cases a; cases b) simp_all
  show "0 + a = a"
    unfolding plus_jsnum_def zero_jsnum_def by (cases a) simp_all
qed

end

definition merge_exact :: "NamedSlice list \<Rightarrow> NamedSlice list" where
  "merge_exact data = (case data of [] \<Rightarrow> [] | x # xs \<Rightarrow> absorb (+) x xs)"

text \<open>
  The total of an identifier in a list of slices, the sum of the deltas of an identifier
  in a profile, the slice of one sample, and the sum of the absolute values of the totals
  of a list of slices: when the totals are whole numbers and that sum is at most \<open>2^53\<close>,
  no addition of the merge rounds.
\<close>

definition group_total :: "jsstring \<Rightarrow> NamedSlice list \<Rightarrow> jsnum" where
  "group_total k xs = sum_list (map total (filter (\<lambda>s. id' s = k) xs))"

definition delta_sum :: "jsstring \<Rightarrow> Profile \<Rightarrow> int" where
  "delta_sum k p = sum_list (map snd (filter (\<lambda>x. fst x = k) (zip (ids p) (deltas p))))"

definition slice_of_sample :: "jsstring \<times> int \<Rightarrow> NamedSlice" where
  "slice_of_sample x = \<lparr>id' = fst x, total = Num (of_int (snd x)), percentage = Num 0\<rparr>"

definition magnitude :: "NamedSlice list \<Rightarrow> rat" where
  "magnitude xs = sum_list (map (\<lambda>s. case total s of Num q \<Rightarrow> \<bar>q\<bar> | _ \<Rightarrow> 0) xs)"

section \<open>The invariant of the session table\<close>

text \<open>
  A task holds the entry of its target, every entry belongs to a task, and the number of
  a task is below the next number to be given out.
\<close>

definition session_inv :: "'t state \<Rightarrow> bool" where
  "session_inv s \<longleftrightarrow>
     (\<forall>k t ph. tasks s k = Some (t, ph) \<longrightarrow> session s t = Some k)
     \<and> (\<forall>t k. session s t = Some k \<longrightarrow> (\<exists>ph. tasks s k = Some (t, ph)))
     \<and> (\<forall>k t ph. tasks s k = Some (t, ph) \<longrightarrow> k < next_token s)"

section \<open>Inputs used in the examples\<close>

text \<open>
  The two scenarios of the specification, a profile with a tie for the largest
  percentage, profiles with no sample and with a duration that is not positive, a
  profile whose first and third identifier are the same string while the second is
  canonically equivalent to it, two profiles of one sample whose share of the
  duration is 12.5 percent, a profile of duration zero whose first sample has the delta
  zero, and a profile with three samples of one identifier whose first delta is \<open>2^53\<close>.
\<close>

definition scenario1 :: Profile where
  "scenario1 = \<lparr>ids = [str ''ext.a'', str ''ext.b'', str ''ext.a''],
                 deltas = [2000000, 500000, 3500000], startTime = 0, endTime = 6000000\<rparr>"

definition scenario2 :: Profile where
  "scenario2 = \<lparr>ids = [str ''ext.c''], deltas = [9900000], startTime = 0, endTime = 10000000\<rparr>"


definition zero_duration_profile :: Profile where
  "zero_duration_profile = \<lparr>ids = [str ''a''], deltas = [5000000], startTime = 3, endTime = 3\<rparr>"

definition negative_duration_profile :: Profile where
  "negative_duration_profile = \<lparr>ids = [str ''a''], deltas = [100], startTime = 1000, endTime = 0\<rparr>"

definition tie_down_profile :: Profile where
  "tie_down_profile = \<lparr>ids = [str ''a''], deltas = [7], startTime = 0, endTime = 56\<rparr>"

definition tie_up_profile :: Profile where
  "tie_up_profile = \<lparr>ids = [str ''a''], deltas = [1], startTime = 0, endTime = 8\<rparr>"

definition empty_profile :: Profile where
  "empty_profile = \<lparr>ids = [], deltas = [], startTime = 0, endTime = 6000000\<rparr>"

definition equivalent_ids_profile :: Profile where
  "equivalent_ids_profile =
     \<lparr>ids = [[0xE9], [0x65, 0x301], [0xE9]], deltas = [1, 2, 4], startTime = 0, endTime = 7\<rparr>"


definition large_delta_profile :: Profile where
  "large_delta_profile =
     \<lparr>ids = [str ''a'', str ''a'', str ''a''], deltas = [9007199254740992, 1, 1],
      startTime = 0, endTime = 10\<rparr>"

definition some_extension :: IExtensionDescription where
  "some_extension = \<lparr>extension_id = str ''a'', name = str ''A'', displayName = None\<rparr>"

text \<open>
  States of the class: one event for a target that is not responsive has been handled
  (\<open>waiting_start\<close>), and the session it started is being stopped (\<open>waiting_stop\<close>);
  and a run in which that event is delivered three times.
\<close>

definition waiting_start :: "nat state" where
  "waiting_start = step canonCompare initial_state (ResponsiveChange 0 True False)"

definition waiting_stop :: "nat state" where
  "waiting_stop =
     step canonCompare (step canonCompare waiting_start (StartSettled 0 True)) (WaitResolved 0)"

definition two_unresponsive_events :: "nat action list" where
  "two_unresponsive_events =
     [ResponsiveChange 0 True False, ResponsiveChange 0 True False, StartSettled 0 True,
      ResponsiveChange 0 True False]"

section \<open>Rounding to binary64\<close>

text \<open>
  The relative error of a rounding is at most \<open>2^-53\<close>; a whole number of at most \<open>2^53\<close>
  in absolute value is not changed, and every whole number is rounded to a whole number.
\<close>

lemma round_half_even_near: "\<bar>of_int (round_half_even y) - y\<bar> \<le> 1 / 2"
proof -
  have "of_int \<lfloor>y\<rfloor> \<le> y" and "y < of_int \<lfloor>y\<rfloor> + 1"
    by linarith+
  then show ?thesis
    unfolding round_half_even_def Let_def by (auto simp: abs_le_iff) 
qed

lemma exponent_le:
  assumes "0 < x"
  shows "2 powi (exponent x) \<le> x"
proof -
  obtain a b where q: "quotient_of x = (a, b)" by (cases "quotient_of x")
  then have b: "0 < b" and x: "x = of_int a / of_int b"
    using quotient_of_denom_pos [OF q] quotient_of_div [OF q] by simp_all
  have a: "0 < a"
    using assms b x by (simp add: zero_less_divide_iff)
  let ?e = "bitlen a - bitlen b"
  show ?thesis
  proof (cases "2 powi ?e \<le> x")
    case True
    then show ?thesis by (simp add: exponent_def q)
  next
    case False
    have ba: "1 \<le> bitlen a" and bb: "1 \<le> bitlen b"
      using a b by (simp_all add: bitlen_alt_def)
    have la: "(2::int) ^ nat (bitlen a - 1) \<le> a" and ub: "b < 2 ^ nat (bitlen b)"
      using bitlen_bounds [OF a] bitlen_bounds [OF b] by simp_all
    define m n where "m = nat (bitlen a - 1)" and "n = nat (bitlen b)"
    have em: "?e - 1 = int m - int n"
      using ba bb by (simp add: m_def n_def)
    have "(2::rat) powi (?e - 1) = 2 powi (int m - int n)"
      by (simp only: em)
    also have "\<dots> = 2 powi int m / 2 powi int n"
      by (rule power_int_diff) simp
    also have "\<dots> = 2 ^ nat (bitlen a - 1) / 2 ^ nat (bitlen b)"
      by (simp only: power_int_of_nat m_def n_def)
    also have "\<dots> \<le> of_int a / 2 ^ nat (bitlen b)"
    proof -
      have "(2::rat) ^ nat (bitlen a - 1) \<le> of_int a"
        using la by (metis of_int_le_iff of_int_numeral of_int_power)
      then show ?thesis by (simp add: divide_right_mono)
    qed
    also have "\<dots> \<le> of_int a / of_int b"
    proof -
      have "(of_int b :: rat) \<le> 2 ^ nat (bitlen b)"
        using ub by (metis less_imp_le of_int_le_iff of_int_numeral of_int_power)
      then show ?thesis
        using a b by (simp add: frac_le)
    qed
    finally have "2 powi (?e - 1) \<le> x" using x by simp
    with False show ?thesis by (simp add: exponent_def q)
  qed
qed

lemma binary64_error: "\<bar>binary64 x - x\<bar> \<le> \<bar>x\<bar> / 2 ^ 53"
proof (cases "x = 0")
  case True
  then show ?thesis by (simp add: binary64_def)
next
  case False
  let ?e = "exponent \<bar>x\<bar>"
  let ?ulp = "(2::rat) powi (?e - 52)"
  let ?n = "round_half_even (\<bar>x\<bar> / ?ulp)"
  have pos: "0 < \<bar>x\<bar>" using False by simp
  have ulp: "0 < ?ulp" by (simp add: zero_less_power_int)
  have b: "binary64 x = sgn x * (?ulp * of_int ?n)"
    using False by (simp add: binary64_def Let_def)
  have "x = sgn x * \<bar>x\<bar>" by (simp add: sgn_mult_abs)
  then have "binary64 x - x = sgn x * (?ulp * of_int ?n - \<bar>x\<bar>)"
    using b by (simp add: algebra_simps)
  then have "\<bar>binary64 x - x\<bar> = \<bar>?ulp * of_int ?n - \<bar>x\<bar>\<bar>"
    using False by (simp add: abs_mult abs_sgn_eq)
  also have "?ulp * of_int ?n - \<bar>x\<bar> = ?ulp * (of_int ?n - \<bar>x\<bar> / ?ulp)"
    using ulp by (simp add: algebra_simps)
  also have "\<bar>\<dots>\<bar> = ?ulp * \<bar>of_int ?n - \<bar>x\<bar> / ?ulp\<bar>"
    using ulp by (simp add: abs_mult)
  also have "\<dots> \<le> ?ulp * (1 / 2)"
    using round_half_even_near [of "\<bar>x\<bar> / ?ulp"] ulp by (intro mult_left_mono) simp_all
  also have "?ulp * (1 / 2) = 2 powi ?e / 2 ^ 53"
  proof -
    have "?ulp = 2 powi (?e - int 52)" by simp
    also have "\<dots> = 2 powi ?e / 2 powi int 52"
      by (rule power_int_diff) simp
    also have "\<dots> = 2 powi ?e / 2 ^ 52"
      by (simp only: power_int_of_nat)
    finally have "?ulp = 2 powi ?e / 2 ^ 52" .
    then show ?thesis by simp
  qed
  also have "\<dots> \<le> \<bar>x\<bar> / 2 ^ 53"
    using exponent_le [OF pos] by (simp add: divide_right_mono)
  finally show ?thesis .
qed

lemma exponent_gt:
  assumes "0 < x"
  shows "x < 2 powi (exponent x + 1)"
proof -
  obtain a b where q: "quotient_of x = (a, b)" by (cases "quotient_of x")
  then have b: "0 < b" and x: "x = of_int a / of_int b"
    using quotient_of_denom_pos [OF q] quotient_of_div [OF q] by simp_all
  have a: "0 < a"
    using assms b x by (simp add: zero_less_divide_iff)
  let ?e = "bitlen a - bitlen b"
  show ?thesis
  proof (cases "2 powi ?e \<le> x")
    case False
    then show ?thesis by (simp add: exponent_def q)
  next
    case True
    have ba: "1 \<le> bitlen a" and bb: "1 \<le> bitlen b"
      using a b by (simp_all add: bitlen_alt_def)
    have ua: "a < 2 ^ nat (bitlen a)" and lb: "(2::int) ^ nat (bitlen b - 1) \<le> b"
      using bitlen_bounds [OF a] bitlen_bounds [OF b] by simp_all
    define m n where "m = nat (bitlen a)" and "n = nat (bitlen b - 1)"
    have em: "?e + 1 = int m - int n"
      using ba bb by (simp add: m_def n_def)
    have "(of_int a :: rat) < 2 ^ m"
      using ua unfolding m_def by (metis of_int_less_iff of_int_numeral of_int_power)
    moreover have "(2::rat) ^ n \<le> of_int b"
      using lb unfolding n_def by (metis of_int_le_iff of_int_numeral of_int_power)
    ultimately have "of_int a / of_int b < (2::rat) ^ m / 2 ^ n"
      using a b by (intro frac_less) simp_all
    also have "\<dots> = 2 powi int m / 2 powi int n"
      by (simp only: power_int_of_nat)
    also have "\<dots> = 2 powi (int m - int n)"
      by (rule power_int_diff [symmetric]) simp
    finally have "x < 2 powi (?e + 1)"
      using x by (simp only: em)
    with True show ?thesis by (simp add: exponent_def q)
  qed
qed

lemma binary64_pos:
  assumes "0 < x"
  shows "0 < binary64 x"
proof -
  have "\<bar>binary64 x - x\<bar> \<le> x / 2 ^ 53"
    using binary64_error [of x] assms by simp
  then have "x - x / 2 ^ 53 \<le> binary64 x"
    by linarith
  moreover have "0 < x - x / 2 ^ 53"
    using assms by (simp add: field_simps)
  ultimately show ?thesis by linarith
qed

lemma round_half_even_of_int: "round_half_even (of_int k) = k"
  by (simp add: round_half_even_def)

lemma binary64_multiple:
  assumes x: "x \<noteq> 0" and k: "\<bar>x\<bar> / 2 powi (exponent \<bar>x\<bar> - 52) = of_int k"
  shows "binary64 x = x"
proof -
  let ?ulp = "(2::rat) powi (exponent \<bar>x\<bar> - 52)"
  have ulp: "0 < ?ulp" by (simp add: zero_less_power_int)
  have "binary64 x = sgn x * (?ulp * of_int k)"
    using x k by (simp add: binary64_def Let_def round_half_even_of_int)
  also have "?ulp * of_int k = \<bar>x\<bar>"
    using k [symmetric] ulp by simp
  finally show ?thesis by (simp add: sgn_mult_abs)
qed

lemma exponent_of_whole:
  assumes "1 \<le> x"
  shows "0 \<le> exponent x"
proof (rule ccontr)
  assume "\<not> 0 \<le> exponent x"
  then have "exponent x + 1 \<le> 0" by simp
  then have "(2::rat) powi (exponent x + 1) \<le> 2 powi 0"
    by (intro power_int_increasing) simp_all
  moreover have "x < 2 powi (exponent x + 1)"
    using assms by (intro exponent_gt) simp
  ultimately show False using assms by simp
qed

lemma exponent_below:
  assumes "0 < x" and "x < 2 powi k"
  shows "exponent x < k"
proof (rule ccontr)
  assume "\<not> exponent x < k"
  then have "k \<le> exponent x" by simp
  then have "(2::rat) powi k \<le> 2 powi exponent x"
    by (intro power_int_increasing) simp_all
  with exponent_le [OF assms(1)] assms(2) show False by simp
qed

lemma exponent_above:
  assumes "0 < x" and "2 powi k \<le> x"
  shows "k \<le> exponent x"
proof (rule ccontr)
  assume "\<not> k \<le> exponent x"
  then have "exponent x + 1 \<le> k" by simp
  then have "(2::rat) powi (exponent x + 1) \<le> 2 powi k"
    by (intro power_int_increasing) simp_all
  with exponent_gt [OF assms(1)] assms(2) show False by simp
qed

lemma binary64_of_int:
  fixes n :: int
  assumes "\<bar>n\<bar> \<le> 2 ^ 53"
  shows "binary64 (of_int n) = of_int n"
proof (cases "n = 0")
  case True
  then show ?thesis by (simp add: binary64_def)
next
  case False
  define x :: rat where "x = \<bar>of_int n\<bar>"
  define e where "e = exponent x"
  have xn: "x = of_int \<bar>n\<bar>" by (simp add: x_def)
  have "1 \<le> \<bar>n\<bar>" using False by simp
  then have x1: "1 \<le> x" unfolding xn by (simp only: of_int_1_le_iff)
  have "(of_int \<bar>n\<bar> :: rat) \<le> of_int (2 ^ 53)"
    using assms by (simp only: of_int_le_iff)
  then have x2: "x \<le> 2 ^ 53" unfolding xn by simp
  have pos: "0 < x" using x1 by simp
  have lo: "2 powi e \<le> x"
    unfolding e_def by (rule exponent_le [OF pos])
  have e0: "0 \<le> e"
    unfolding e_def by (rule exponent_of_whole [OF x1])
  have nz: "(of_int n :: rat) \<noteq> 0" using False by simp
  show ?thesis
  proof (cases "e \<le> 52")
    case True
    define m where "m = nat (52 - e)"
    have "e - 52 = - int m" using True by (simp add: m_def)
    then have "(2::rat) powi (e - 52) = 1 / 2 ^ m"
      by (simp add: power_int_minus_divide)
    then have "x / 2 powi (e - 52) = of_int (\<bar>n\<bar> * 2 ^ m)"
      by (simp add: xn)
    then show ?thesis
      using nz by (intro binary64_multiple [where k = "\<bar>n\<bar> * 2 ^ m"]) (simp_all add: x_def e_def)
  next
    case False
    have "e < 54"
      unfolding e_def using pos x2 by (intro exponent_below) simp_all
    with False have e: "e = 53" by simp
    from lo have "2 ^ 53 \<le> x" by (simp add: e)
    with x2 have "x = 2 ^ 53" by simp
    then have "x / 2 powi (e - 52) = of_int (2 ^ 52)"
      by (simp add: e)
    then show ?thesis
      using nz by (intro binary64_multiple [where k = "2 ^ 52"]) (simp_all add: x_def e_def)
  qed
qed

lemma binary64_whole:
  fixes n :: int
  shows "\<exists>m::int. binary64 (of_int n) = of_int m"
proof (cases "\<bar>n\<bar> \<le> 2 ^ 53")
  case True
  then show ?thesis using binary64_of_int by blast
next
  case False
  define x :: rat where "x = \<bar>of_int n\<bar>"
  define e where "e = exponent x"
  have xn: "x = of_int \<bar>n\<bar>" by (simp add: x_def)
  have "2 ^ 53 \<le> \<bar>n\<bar>" using False by simp
  then have "(of_int (2 ^ 53) :: rat) \<le> of_int \<bar>n\<bar>"
    by (simp only: of_int_le_iff)
  then have x2: "2 ^ 53 \<le> x" unfolding xn by simp
  then have pos: "0 < x" by simp
  have "53 \<le> e"
    unfolding e_def using pos x2 by (intro exponent_above) simp_all
  define m where "m = nat (e - 52)"
  have "e - 52 = int m" using \<open>53 \<le> e\<close> by (simp add: m_def)
  then have ulp: "(2::rat) powi (e - 52) = of_int (2 ^ m)"
    by (simp add: power_int_of_nat)
  have nz: "(of_int n :: rat) \<noteq> 0" using pos by (simp add: x_def)
  have "binary64 (of_int n)
      = sgn (of_int n) * (of_int (2 ^ m) * of_int (round_half_even (x / of_int (2 ^ m))))"
    using nz ulp by (simp add: binary64_def Let_def x_def e_def)
  also have "\<dots> = of_int (sgn n * (2 ^ m * round_half_even (x / of_int (2 ^ m))))"
    by (simp add: sgn_if)
  finally show ?thesis by blast
qed



section \<open>The merge loop\<close>

lemma merge_loop_absorb:
  "anchor < i \<Longrightarrow> i \<le> length data \<Longrightarrow>
   (case merge_loop data anchor i of (d, a) \<Rightarrow> take (a + 1) d) =
     take anchor data @ absorb js_add (data ! anchor) (drop i data)"
proof (induction data anchor i rule: merge_loop.induct)
  case (1 data anchor i)
  show ?case
  proof (cases "i < length data")
    case False
    with "1.prems" have "i = length data" by simp
    with "1.prems" show ?thesis
      by (simp add: take_Suc_conv_app_nth)
  next
    case inb: True
    have dr: "drop i data = data ! i # drop (Suc i) data"
      using inb by (simp add: Cons_nth_drop_Suc)
    show ?thesis
    proof (cases "id' (data ! anchor) = id' (data ! i)")
      case True
      let ?d = "data[anchor := (data ! anchor)\<lparr>total := js_add (total (data ! anchor)) (total (data ! i))\<rparr>]"
      have "(case merge_loop ?d anchor (i + 1) of (d, a) \<Rightarrow> take (a + 1) d) =
              take anchor ?d @ absorb js_add (?d ! anchor) (drop (i + 1) ?d)"
        using "1.IH"(1) [OF inb True] "1.prems" inb by simp
      moreover have "merge_loop data anchor i = merge_loop ?d anchor (i + 1)"
        using inb True by (subst merge_loop.simps) simp
      ultimately show ?thesis
        using "1.prems" inb True dr by simp
    next
      case False
      let ?d = "data[anchor + 1 := data ! i]"
      have "(case merge_loop ?d (anchor + 1) (i + 1) of (d, a) \<Rightarrow> take (a + 1) d) =
              take (anchor + 1) ?d @ absorb js_add (?d ! (anchor + 1)) (drop (i + 1) ?d)"
        using "1.IH"(2) [OF inb False] "1.prems" inb by simp
      moreover have "merge_loop data anchor i = merge_loop ?d (anchor + 1) (i + 1)"
        using inb False by (subst merge_loop.simps) simp
      ultimately show ?thesis
        using "1.prems" inb False dr by (simp add: take_Suc_conv_app_nth)
    qed
  qed
qed

lemma merge_by_id_Nil: "merge_by_id [] = []"
  by (simp add: merge_by_id_def)

lemma merge_by_id_Cons: "merge_by_id (x # xs) = absorb js_add x xs"
  using merge_loop_absorb [of 0 1 "x # xs"] by (simp add: merge_by_id_def)

lemma absorb_total: "sum_list (map total (absorb (+) c xs)) = total c + sum_list (map total xs)"
  by (induction xs arbitrary: c) (simp_all add: add.assoc)

lemma absorb_not_Nil: "absorb add c xs \<noteq> []"
  by (induction xs arbitrary: c) simp_all

lemma merge_exact_total: "sum_list (map total (merge_exact xs)) = sum_list (map total xs)"
  by (cases xs) (simp_all add: merge_exact_def absorb_total)

lemma merge_by_id_empty: "merge_by_id xs = [] \<longleftrightarrow> xs = []"
  by (cases xs) (simp_all add: merge_by_id_Nil merge_by_id_Cons absorb_not_Nil)

lemma insort_cmp_total: "sum_list (map total (insort_cmp lc a bs)) = total a + sum_list (map total bs)"
  by (induction bs) (simp_all add: add.left_commute)

lemma insort_cmp_length: "length (insort_cmp lc a bs) = Suc (length bs)"
  by (induction bs) simp_all

lemma array_sort_total: "sum_list (map total (array_sort lc xs)) = sum_list (map total xs)"
  by (induction xs) (simp_all add: array_sort_def insort_cmp_total)

lemma array_sort_length: "length (array_sort lc xs) = length xs"
  by (induction xs) (simp_all add: array_sort_def insort_cmp_length)

lemma sum_list_Num: "sum_list (map (\<lambda>d. Num (of_int d)) ds) = Num (of_int (sum_list ds))"
  by (induction ds) (simp_all add: zero_jsnum_def plus_jsnum_def)

lemma build_data_total:
  assumes "length (ids p) = length (deltas p)"
  shows "map total (build_data p) = map (\<lambda>d. Num (of_int d)) (deltas p)"
proof (rule nth_equalityI)
  show "length (map total (build_data p)) = length (map (\<lambda>d. Num (of_int d)) (deltas p))"
    using assms by (simp add: build_data_def)
next
  fix i
  assume "i < length (map total (build_data p))"
  then have "i < length (deltas p)"
    using assms by (simp add: build_data_def)
  then show "map total (build_data p) ! i = map (\<lambda>d. Num (of_int d)) (deltas p) ! i"
    using assms by (simp add: build_data_def read_delta_def)
qed

lemma build_data_length: "length (build_data p) = length (ids p)"
  by (simp add: build_data_def)

lemma set_insort_cmp: "set (insort_cmp lc a bs) = insert a (set bs)"
  by (induction bs) auto

lemma set_array_sort: "set (array_sort lc xs) = set xs"
  by (induction xs) (simp_all add: array_sort_def set_insort_cmp)

lemma js_add_whole:
  "\<bar>a + b\<bar> \<le> 2 ^ 53 \<Longrightarrow> js_add (Num (of_int a)) (Num (of_int b)) = Num (of_int (a + b))"
  using binary64_of_int [of "a + b"] by simp

lemma absorb_int_total:
  assumes "\<exists>n::int. total c = Num (of_int n)" and "\<forall>s\<in>set xs. \<exists>n::int. total s = Num (of_int n)"
  shows "\<forall>s\<in>set (absorb js_add c xs). \<exists>n::int. total s = Num (of_int n)"
  using assms
proof (induction xs arbitrary: c)
  case Nil
  then show ?case by simp
next
  case (Cons x xs)
  from Cons.prems obtain a b :: int where ab: "total c = Num (of_int a)" "total x = Num (of_int b)"
    by auto
  have rest: "\<forall>s\<in>set xs. \<exists>n::int. total s = Num (of_int n)"
    using Cons.prems(2) by simp
  show ?case
  proof (cases "id' c = id' x")
    case True
    from binary64_whole [of "a + b"] obtain m :: int where "binary64 (of_int (a + b)) = of_int m"
      by blast
    then have "\<exists>n::int. total (c\<lparr>total := js_add (total c) (total x)\<rparr>) = Num (of_int n)"
      using ab by (intro exI [of _ m]) simp
    from Cons.IH [OF this rest] True show ?thesis by simp
  next
    case False
    have "\<exists>n::int. total x = Num (of_int n)" using ab by blast
    from Cons.IH [OF this rest] False Cons.prems(1) show ?thesis by simp
  qed
qed

lemma merge_by_id_int_total:
  assumes "\<forall>s\<in>set xs. \<exists>n::int. total s = Num (of_int n)"
  shows "\<forall>s\<in>set (merge_by_id xs). \<exists>n::int. total s = Num (of_int n)"
proof (cases xs)
  case Nil
  then show ?thesis by (simp add: merge_by_id_Nil)
next
  case (Cons x ys)
  with assms absorb_int_total [of x ys] show ?thesis
    by (simp add: merge_by_id_Cons)
qed

lemma build_data_int_total:
  assumes "length (ids p) = length (deltas p)"
  shows "\<forall>s\<in>set (build_data p). \<exists>n::int. total s = Num (of_int n)"
  using assms by (auto simp: build_data_def read_delta_def)

lemma merged_slices_int_total:
  assumes "length (ids p) = length (deltas p)"
  shows "\<forall>s\<in>set (merged_slices lc p). \<exists>n::int. total s = Num (of_int n)"
  unfolding merged_slices_def
  by (rule merge_by_id_int_total) (simp add: set_array_sort build_data_int_total [OF assms])

lemma merged_slices_empty: "merged_slices lc p = [] \<longleftrightarrow> ids p = []"
proof -
  have "merged_slices lc p = [] \<longleftrightarrow> length (build_data p) = 0"
    unfolding merged_slices_def merge_by_id_empty
    using array_sort_length [of lc "build_data p"] by (metis length_0_conv)
  then show ?thesis
    by (simp add: build_data_length)
qed



text \<open>
  When the totals are whole numbers whose absolute values sum to at most \<open>2^53\<close>, every
  sum of the merge is a whole number of at most \<open>2^53\<close> in absolute value, and the merge
  is the merge with exact sums.
\<close>

lemma magnitude_Nil: "magnitude [] = 0"
  by (simp add: magnitude_def)

lemma magnitude_Cons:
  "magnitude (x # xs) = (case total x of Num q \<Rightarrow> \<bar>q\<bar> | _ \<Rightarrow> 0) + magnitude xs"
  by (simp add: magnitude_def)

lemma magnitude_nonneg: "0 \<le> magnitude xs"
  by (induction xs) (simp_all add: magnitude_Nil magnitude_Cons split: jsnum.splits)

lemma magnitude_insort: "magnitude (insort_cmp lc a bs) = magnitude (a # bs)"
  by (induction bs) (simp_all add: magnitude_Cons)

lemma magnitude_array_sort: "magnitude (array_sort lc xs) = magnitude xs"
  by (induction xs) (simp_all add: array_sort_def magnitude_insort magnitude_Cons)

lemma magnitude_samples:
  "magnitude (map slice_of_sample zs) = of_int (sum_list (map (\<lambda>z. \<bar>snd z\<bar>) zs))"
  by (induction zs) (simp_all add: magnitude_Nil magnitude_Cons slice_of_sample_def)

lemma absorb_exact:
  assumes "\<forall>s\<in>set (c # xs). \<exists>n::int. total s = Num (of_int n)" and "magnitude (c # xs) \<le> 2 ^ 53"
  shows "absorb js_add c xs = absorb (+) c xs"
  using assms
proof (induction xs arbitrary: c)
  case Nil
  show ?case by simp
next
  case (Cons x xs)
  from Cons.prems(1) obtain a b :: int where ab: "total c = Num (of_int a)" "total x = Num (of_int b)"
    by auto
  have rest: "\<forall>s\<in>set xs. \<exists>n::int. total s = Num (of_int n)"
    using Cons.prems(1) by simp
  have m: "\<bar>of_int a\<bar> + \<bar>of_int b\<bar> + magnitude xs \<le> (2 ^ 53 :: rat)"
    using Cons.prems(2) ab by (simp add: magnitude_Cons)
  show ?case
  proof (cases "id' c = id' x")
    case True
    let ?c = "c\<lparr>total := total c + total x\<rparr>"
    have "(of_int \<bar>a + b\<bar> :: rat) \<le> \<bar>of_int a\<bar> + \<bar>of_int b\<bar>"
      by simp
    also have "\<dots> \<le> 2 ^ 53"
      using m magnitude_nonneg [of xs] by linarith
    finally have "(of_int \<bar>a + b\<bar> :: rat) \<le> of_int (2 ^ 53)" by simp
    then have small: "\<bar>a + b\<bar> \<le> 2 ^ 53"
      by (simp only: of_int_le_iff)
    have sum: "js_add (total c) (total x) = total c + total x"
      using js_add_whole [OF small] ab by (simp add: plus_jsnum_def)
    have wc: "\<forall>s\<in>set (?c # xs). \<exists>n::int. total s = Num (of_int n)"
    proof -
      have "total ?c = Num (of_int (a + b))"
        using ab by (simp add: plus_jsnum_def)
      then have "\<exists>n::int. total ?c = Num (of_int n)" by blast
      with rest show ?thesis by simp
    qed
    have mc: "magnitude (?c # xs) \<le> 2 ^ 53"
    proof -
      have "magnitude (?c # xs) = \<bar>of_int a + of_int b\<bar> + magnitude xs"
        using ab by (simp add: magnitude_Cons plus_jsnum_def)
      also have "\<dots> \<le> \<bar>of_int a\<bar> + \<bar>of_int b\<bar> + magnitude xs"
        by simp
      finally show ?thesis using m by linarith
    qed
    have "absorb js_add c (x # xs) = absorb js_add ?c xs"
      using True sum by simp
    also have "\<dots> = absorb (+) ?c xs"
      by (rule Cons.IH [OF wc mc])
    also have "\<dots> = absorb (+) c (x # xs)"
      using True by simp
    finally show ?thesis .
  next
    case False
    have wx: "\<forall>s\<in>set (x # xs). \<exists>n::int. total s = Num (of_int n)"
      using Cons.prems(1) by simp
    have mx: "magnitude (x # xs) \<le> 2 ^ 53"
    proof -
      have "magnitude (x # xs) = \<bar>of_int b\<bar> + magnitude xs"
        using ab by (simp add: magnitude_Cons)
      then show ?thesis using m by linarith
    qed
    from Cons.IH [OF wx mx] False show ?thesis by simp
  qed
qed

lemma build_data_zip:
  assumes "length (ids p) = length (deltas p)"
  shows "build_data p = map slice_of_sample (zip (ids p) (deltas p))"
proof (rule nth_equalityI)
  show "length (build_data p) = length (map slice_of_sample (zip (ids p) (deltas p)))"
    using assms by (simp add: build_data_def)
next
  fix i
  assume "i < length (build_data p)"
  then have "i < length (ids p)" "i < length (deltas p)"
    using assms by (simp_all add: build_data_def)
  then show "build_data p ! i = map slice_of_sample (zip (ids p) (deltas p)) ! i"
    by (simp add: build_data_def read_delta_def slice_of_sample_def)
qed

lemma magnitude_build_data:
  assumes "length (ids p) = length (deltas p)"
  shows "magnitude (build_data p) = of_int (sum_list (map abs (deltas p)))"
proof -
  have "map (\<lambda>z. \<bar>snd z\<bar>) (zip (ids p) (deltas p)) = map abs (map snd (zip (ids p) (deltas p)))"
    by simp
  also have "\<dots> = map abs (deltas p)"
    using assms by (simp only: map_snd_zip)
  finally show ?thesis
    by (simp only: build_data_zip [OF assms] magnitude_samples)
qed

lemma merged_slices_exact:
  assumes len: "length (ids p) = length (deltas p)"
    and small: "sum_list (map abs (deltas p)) \<le> 2 ^ 53"
  shows "merged_slices lc p = merge_exact (array_sort lc (build_data p))"
proof (cases "array_sort lc (build_data p)")
  case Nil
  then show ?thesis by (simp add: merged_slices_def merge_by_id_Nil merge_exact_def)
next
  case (Cons c xs)
  have w: "\<forall>s\<in>set (c # xs). \<exists>n::int. total s = Num (of_int n)"
    using build_data_int_total [OF len] set_array_sort [of lc "build_data p"] Cons by simp
  have "magnitude (c # xs) = of_int (sum_list (map abs (deltas p)))"
    using magnitude_array_sort [of lc "build_data p"] Cons
    by (simp only: magnitude_build_data [OF len])
  also have "\<dots> \<le> of_int (2 ^ 53)"
    using small by (simp only: of_int_le_iff)
  finally have m: "magnitude (c # xs) \<le> 2 ^ 53" by simp
  show ?thesis
    by (simp add: merged_slices_def Cons merge_by_id_Cons merge_exact_def absorb_exact [OF w m])
qed

lemma scenario1_merged:
  "merged_slices canonCompare scenario1
     = [\<lparr>id' = str ''ext.a'', total = Num 5500000, percentage = Num 0\<rparr>,
        \<lparr>id' = str ''ext.b'', total = Num 500000, percentage = Num 0\<rparr>]"
  unfolding scenario1_def by code_simp

lemma whole_list:
  assumes "\<forall>s\<in>set xs. \<exists>n::int. total s = Num (of_int n)"
  shows "\<exists>ns::int list. map total xs = map (\<lambda>n. Num (of_int n)) ns"
  using assms
proof (induction xs)
  case Nil
  show ?case by simp
next
  case (Cons x xs)
  then obtain n :: int and ns :: "int list" where "total x = Num (of_int n)"
    "map total xs = map (\<lambda>n. Num (of_int n)) ns"
    by auto
  then show ?case
    by (intro exI [of _ "n # ns"]) simp
qed

lemma merged_slices_total:
  assumes len: "length (ids p) = length (deltas p)"
    and small: "sum_list (map abs (deltas p)) \<le> 2 ^ 53"
  shows "sum_list (map total (merged_slices lc p)) = Num (of_int (sum_list (deltas p)))"
proof -
  have "sum_list (map total (merged_slices lc p)) = sum_list (map total (build_data p))"
    by (simp only: merged_slices_exact [OF len small] merge_exact_total array_sort_total)
  then show ?thesis
    by (simp add: build_data_total [OF len] sum_list_Num)
qed

text \<open>
  Claim C10, as stated, fails when a sum passes \<open>2^53\<close>, where \<^verbatim>\<open>+=\<close> rounds. Three
  samples of one identifier with the deltas \<open>2^53\<close>, 1 and 1 are merged to one slice
  whose total is \<open>2^53\<close>: each of the two additions gives a number halfway between two
  binary64 values, which is rounded to \<open>2^53\<close>. The deltas sum to \<open>2^53 + 2\<close>.
\<close>

theorem large_deltas_lose_total:
  "length (ids large_delta_profile) = length (deltas large_delta_profile)
   \<and> map total (merged_slices canonCompare large_delta_profile) = [Num 9007199254740992]
   \<and> sum_list (deltas large_delta_profile) = 9007199254740994"
  unfolding large_delta_profile_def by code_simp

text \<open>
  Claim C10, amended. The merged list is empty if and only if the profile has no sample.
  For index-aligned \<open>ids\<close> and \<open>deltas\<close> of equal length whose deltas are whole numbers
  with absolute values that sum to at most \<open>2^53\<close>, merging conserves the total cost: the
  totals of the merged slices are whole numbers, and their sum is the sum of all deltas.
\<close>

theorem merge_conserves_total:
  "(merged_slices lc p = [] \<longleftrightarrow> ids p = [])
   \<and> (length (ids p) = length (deltas p) \<longrightarrow> sum_list (map abs (deltas p)) \<le> 2 ^ 53 \<longrightarrow>
        (\<exists>ns::int list. map total (merged_slices lc p) = map (\<lambda>n. Num (of_int n)) ns
            \<and> sum_list ns = sum_list (deltas p)))"
proof (intro conjI impI)
  show "merged_slices lc p = [] \<longleftrightarrow> ids p = []"
    by (rule merged_slices_empty)
  assume len: "length (ids p) = length (deltas p)"
    and small: "sum_list (map abs (deltas p)) \<le> 2 ^ 53"
  from whole_list [OF merged_slices_int_total [OF len]]
  obtain ns :: "int list" where ns: "map total (merged_slices lc p) = map (\<lambda>n. Num (of_int n)) ns"
    by blast
  have "Num (of_int (sum_list ns)) = sum_list (map total (merged_slices lc p))"
    by (simp only: ns sum_list_Num)
  also have "\<dots> = Num (of_int (sum_list (deltas p)))"
    by (rule merged_slices_total [OF len small])
  finally have "sum_list ns = sum_list (deltas p)"
    by simp
  with ns show "\<exists>ns::int list. map total (merged_slices lc p) = map (\<lambda>n. Num (of_int n)) ns
            \<and> sum_list ns = sum_list (deltas p)"
    by blast
qed

theorem merge_conserves_total_witness:
  "length (ids scenario1) = length (deltas scenario1)
   \<and> sum_list (map abs (deltas scenario1)) \<le> 2 ^ 53
   \<and> (\<exists>ns::int list. map total (merged_slices canonCompare scenario1) = map (\<lambda>n. Num (of_int n)) ns
         \<and> sum_list ns = 6000000)
   \<and> map total (merged_slices canonCompare scenario1) = [Num 5500000, Num 500000]
   \<and> merged_slices canonCompare scenario1 \<noteq> []
   \<and> ids scenario1 \<noteq> []"
proof -
  have len: "length (ids scenario1) = length (deltas scenario1)"
    and small: "sum_list (map abs (deltas scenario1)) \<le> 2 ^ 53"
    by (simp_all add: scenario1_def)
  have s: "sum_list (deltas scenario1) = 6000000" and ne: "ids scenario1 \<noteq> []"
    by (simp_all add: scenario1_def)
  from merge_conserves_total [of canonCompare scenario1] len small
  have "\<exists>ns::int list. map total (merged_slices canonCompare scenario1) = map (\<lambda>n. Num (of_int n)) ns
         \<and> sum_list ns = sum_list (deltas scenario1)"
    by blast
  then have t: "\<exists>ns::int list. map total (merged_slices canonCompare scenario1) = map (\<lambda>n. Num (of_int n)) ns
         \<and> sum_list ns = 6000000"
    by (simp only: s)
  from merge_conserves_total [of canonCompare scenario1] ne
  have "merged_slices canonCompare scenario1 \<noteq> []"
    by blast
  moreover have "map total (merged_slices canonCompare scenario1) = [Num 5500000, Num 500000]"
    by (simp add: scenario1_merged)
  ultimately show ?thesis
    using len small t ne by blast
qed

text \<open>
  The merge groups by identifier when the comparator is consistent and takes no two
  different identifiers of the profile for equal, and no sum rounds: then the merged
  slices have the identifiers of the profile, each once and in strictly ascending order,
  each with the sum of its deltas (\<open>merged_slices_groups\<close>), and profiles with the same
  samples in another order have the same merged slices
  (\<open>merged_slices_order_independent\<close>).
\<close>

lemma group_total_Nil: "group_total k [] = 0"
  by (simp add: group_total_def)

lemma group_total_Cons:
  "group_total k (x # xs) = (if id' x = k then total x + group_total k xs else group_total k xs)"
  by (simp add: group_total_def)

lemma group_total_absent: "k \<notin> id' ` set xs \<Longrightarrow> group_total k xs = 0"
  by (induction xs) (auto simp: group_total_Nil group_total_Cons)

lemma group_total_insort: "group_total k (insort_cmp lc a bs) = group_total k (a # bs)"
  by (induction bs) (simp_all add: group_total_Cons add.left_commute)

lemma group_total_array_sort: "group_total k (array_sort lc xs) = group_total k xs"
  by (induction xs) (simp_all add: array_sort_def group_total_insort group_total_Cons)

lemma sorted_insort_cmp:
  assumes "consistent lc" and "sorted_wrt (\<lambda>a b. lc (id' a) (id' b) \<le> 0) bs"
  shows "sorted_wrt (\<lambda>a b. lc (id' a) (id' b) \<le> 0) (insort_cmp lc a bs)"
  using assms(2)
proof (induction bs)
  case Nil
  show ?case by simp
next
  case (Cons b bs)
  have tr: "\<And>x y z. lc x y \<le> 0 \<Longrightarrow> lc y z \<le> 0 \<Longrightarrow> lc x z \<le> 0"
    and sym: "\<And>x y. (lc x y < 0) = (0 < lc y x)"
    using assms(1) unfolding consistent_def by blast+
  show ?case
  proof (cases "lc (id' a) (id' b) \<le> 0")
    case True
    have "\<forall>y\<in>set bs. lc (id' a) (id' y) \<le> 0"
      using Cons.prems True tr by auto
    with True Cons.prems show ?thesis by simp
  next
    case False
    then have "lc (id' b) (id' a) \<le> 0"
      using sym [of "id' b" "id' a"] by linarith
    with False Cons show ?thesis
      by (simp add: set_insort_cmp)
  qed
qed

lemma sorted_array_sort:
  assumes "consistent lc"
  shows "sorted_wrt (\<lambda>a b. lc (id' a) (id' b) \<le> 0) (array_sort lc xs)"
  by (induction xs) (simp_all add: array_sort_def sorted_insort_cmp [OF assms])

lemma absorb_groups:
  assumes con: "consistent lc"
    and "sorted_wrt (\<lambda>a b. lc (id' a) (id' b) \<le> 0) (c # xs)"
    and "\<forall>a\<in>id' ` set (c # xs). \<forall>b\<in>id' ` set (c # xs). lc a b = 0 \<longrightarrow> a = b"
  shows "id' ` set (absorb (+) c xs) = id' ` set (c # xs)
       \<and> sorted_wrt (\<lambda>a b. lc (id' a) (id' b) < 0) (absorb (+) c xs)
       \<and> (\<forall>s\<in>set (absorb (+) c xs). total s = group_total (id' s) (c # xs))"
  using assms(2,3)
proof (induction xs arbitrary: c)
  case Nil
  show ?case by (simp add: group_total_Cons group_total_Nil)
next
  case (Cons x xs)
  have sym: "\<And>a b. (lc a b < 0) = (0 < lc b a)"
    using con unfolding consistent_def by blast
  have sorted_xs: "sorted_wrt (\<lambda>a b. lc (id' a) (id' b) \<le> 0) (x # xs)"
    and c_le: "\<forall>y\<in>set (x # xs). lc (id' c) (id' y) \<le> 0"
    using Cons.prems(1) by simp_all
  have sep: "\<And>a b. a \<in> id' ` set (c # x # xs) \<Longrightarrow> b \<in> id' ` set (c # x # xs) \<Longrightarrow> lc a b = 0 \<Longrightarrow> a = b"
    using Cons.prems(2) by blast
  show ?case
  proof (cases "id' c = id' x")
    case True
    let ?c = "c\<lparr>total := total c + total x\<rparr>"
    have s': "sorted_wrt (\<lambda>a b. lc (id' a) (id' b) \<le> 0) (?c # xs)"
      using sorted_xs c_le by simp
    have "id' ` set (?c # xs) \<subseteq> id' ` set (c # x # xs)"
      by auto
    then have sep': "\<forall>a\<in>id' ` set (?c # xs). \<forall>b\<in>id' ` set (?c # xs). lc a b = 0 \<longrightarrow> a = b"
      using Cons.prems(2) by blast
    from Cons.IH [OF s' sep'] have ih:
      "id' ` set (absorb (+) ?c xs) = id' ` set (?c # xs)"
      "sorted_wrt (\<lambda>a b. lc (id' a) (id' b) < 0) (absorb (+) ?c xs)"
      "\<forall>s\<in>set (absorb (+) ?c xs). total s = group_total (id' s) (?c # xs)"
      by blast+
    have gt: "\<And>k. group_total k (?c # xs) = group_total k (c # x # xs)"
      using True by (simp add: group_total_Cons add.assoc)
    have "id' ` set (absorb (+) ?c xs) = id' ` set (?c # xs)"
      by (rule ih(1))
    also have "\<dots> = insert (id' c) (id' ` set xs)"
      by simp
    also have "\<dots> = insert (id' c) (insert (id' c) (id' ` set xs))"
      by simp
    also have "\<dots> = id' ` set (c # x # xs)"
      by (simp add: True [symmetric])
    finally have ids: "id' ` set (absorb (+) ?c xs) = id' ` set (c # x # xs)" .
    have tot: "\<forall>s\<in>set (absorb (+) ?c xs). total s = group_total (id' s) (c # x # xs)"
    proof
      fix s
      assume "s \<in> set (absorb (+) ?c xs)"
      then have "total s = group_total (id' s) (?c # xs)"
        using ih(3) by blast
      then show "total s = group_total (id' s) (c # x # xs)"
        by (simp only: gt)
    qed
    have eq: "absorb (+) c (x # xs) = absorb (+) ?c xs"
      using True by simp
    show ?thesis
      unfolding eq using ids ih(2) tot by blast
  next
    case False
    have "id' ` set (x # xs) \<subseteq> id' ` set (c # x # xs)"
      by auto
    then have sep'': "\<forall>a\<in>id' ` set (x # xs). \<forall>b\<in>id' ` set (x # xs). lc a b = 0 \<longrightarrow> a = b"
      using Cons.prems(2) by blast
    from Cons.IH [OF sorted_xs sep''] have ih:
      "id' ` set (absorb (+) x xs) = id' ` set (x # xs)"
      "sorted_wrt (\<lambda>a b. lc (id' a) (id' b) < 0) (absorb (+) x xs)"
      "\<forall>s\<in>set (absorb (+) x xs). total s = group_total (id' s) (x # xs)"
      by blast+
    have absent: "id' c \<notin> id' ` set (x # xs)"
    proof
      assume "id' c \<in> id' ` set (x # xs)"
      then obtain y where y: "id' c = id' y" "y \<in> set (x # xs)" by (rule imageE)
      with False have "y \<in> set xs" by auto
      then have "lc (id' x) (id' y) \<le> 0" using sorted_xs by simp
      then have "lc (id' x) (id' c) \<le> 0" using y(1) by simp
      moreover have "lc (id' c) (id' x) \<le> 0" using c_le by simp
      ultimately have "lc (id' c) (id' x) = 0"
        using sym [of "id' c" "id' x"] by linarith
      then have "id' c = id' x" by (intro sep) simp_all
      with False show False by simp
    qed
    have lt: "\<forall>s\<in>set (absorb (+) x xs). lc (id' c) (id' s) < 0"
    proof
      fix s
      assume "s \<in> set (absorb (+) x xs)"
      then have mem: "id' s \<in> id' ` set (x # xs)" using ih(1) by blast
      then have le: "lc (id' c) (id' s) \<le> 0" using c_le by auto
      have "lc (id' c) (id' s) \<noteq> 0"
      proof
        assume "lc (id' c) (id' s) = 0"
        then have "id' c = id' s" using mem by (intro sep) auto
        with mem absent show False by simp
      qed
      with le show "lc (id' c) (id' s) < 0" by simp
    qed
    have tc: "total c = group_total (id' c) (c # x # xs)"
      using group_total_absent [OF absent] by (simp add: group_total_Cons)
    have ts: "\<forall>s\<in>set (absorb (+) x xs). total s = group_total (id' s) (c # x # xs)"
    proof
      fix s
      assume s: "s \<in> set (absorb (+) x xs)"
      then have "id' s \<in> id' ` set (x # xs)" using ih(1) by blast
      with absent have "id' c \<noteq> id' s" by auto
      with ih(3) [rule_format, OF s] show "total s = group_total (id' s) (c # x # xs)"
        by (simp add: group_total_Cons)
    qed
    have ids: "id' ` set (c # absorb (+) x xs) = id' ` set (c # x # xs)"
      using ih(1) by simp
    have srt: "sorted_wrt (\<lambda>a b. lc (id' a) (id' b) < 0) (c # absorb (+) x xs)"
      using ih(2) lt by simp
    have tot: "\<forall>s\<in>set (c # absorb (+) x xs). total s = group_total (id' s) (c # x # xs)"
      using tc ts by simp
    have eq: "absorb (+) c (x # xs) = c # absorb (+) x xs"
      using False by simp
    show ?thesis
      unfolding eq using ids srt tot by blast
  qed
qed

lemma group_total_samples:
  "group_total k (map slice_of_sample zs)
     = Num (of_int (sum_list (map snd (filter (\<lambda>x. fst x = k) zs))))"
  by (induction zs)
    (simp_all add: group_total_Nil group_total_Cons slice_of_sample_def zero_jsnum_def plus_jsnum_def)

lemma group_total_build_data:
  assumes "length (ids p) = length (deltas p)"
  shows "group_total k (build_data p) = Num (of_int (delta_sum k p))"
  by (simp add: build_data_zip [OF assms] group_total_samples delta_sum_def)

lemma ids_build_data: "id' ` set (build_data p) = set (ids p)"
proof -
  have "map id' (build_data p) = ids p"
    by (rule nth_equalityI) (simp_all add: build_data_def)
  then have "set (map id' (build_data p)) = set (ids p)" by simp
  then show ?thesis by simp
qed

lemma percentage_build_data: "\<forall>s\<in>set (build_data p). percentage s = Num 0"
  by (simp add: build_data_def)

lemma absorb_percentage:
  assumes "percentage c = v" and "\<forall>s\<in>set xs. percentage s = v"
  shows "\<forall>s\<in>set (absorb add c xs). percentage s = v"
  using assms
proof (induction xs arbitrary: c)
  case Nil
  then show ?case by simp
next
  case (Cons x xs)
  have rest: "\<forall>s\<in>set xs. percentage s = v" and px: "percentage x = v"
    using Cons.prems(2) by simp_all
  show ?case
  proof (cases "id' c = id' x")
    case True
    have "percentage (c\<lparr>total := add (total c) (total x)\<rparr>) = v"
      using Cons.prems(1) by simp
    from Cons.IH [OF this rest] True show ?thesis by simp
  next
    case False
    from Cons.IH [OF px rest] False Cons.prems(1) show ?thesis by simp
  qed
qed

lemma strict_sorted_distinct:
  assumes "\<And>a. \<not> r a a" and "sorted_wrt r xs"
  shows "distinct xs"
  using assms(2) by (induction xs) (use assms(1) in auto)

lemma strict_sorted_unique:
  assumes asym: "\<And>a b. r a b \<Longrightarrow> \<not> r b a"
    and "sorted_wrt r xs" and "sorted_wrt r ys" and "set xs = set ys"
  shows "xs = ys"
  using assms(2-4)
proof (induction xs arbitrary: ys)
  case Nil
  then show ?case by simp
next
  case (Cons x xs)
  from Cons.prems(3) obtain y ys' where ys: "ys = y # ys'"
    by (cases ys) auto
  have irr: "\<And>a. \<not> r a a" using asym by blast
  have x_lt: "\<forall>z\<in>set xs. r x z" and sx: "sorted_wrt r xs"
    using Cons.prems(1) by simp_all
  have y_lt: "\<forall>z\<in>set ys'. r y z" and sy: "sorted_wrt r ys'"
    using Cons.prems(2) ys by simp_all
  have xy: "x = y"
  proof (rule ccontr)
    assume ne: "x \<noteq> y"
    have "x \<in> set (y # ys')" using Cons.prems(3) ys by auto
    with ne have "r y x" using y_lt by auto
    moreover have "y \<in> set (x # xs)" using Cons.prems(3) ys by auto
    with ne have "r x y" using x_lt by auto
    ultimately show False using asym by blast
  qed
  have "x \<notin> set xs" using x_lt irr by blast
  moreover have "y \<notin> set ys'" using y_lt irr by blast
  moreover have "insert x (set xs) = insert y (set ys')"
    using Cons.prems(3) ys by simp
  ultimately have "set xs = set ys'"
    using xy by auto
  with Cons.IH [OF sx sy] xy ys show ?case by simp
qed

lemma merged_slices_groups:
  assumes con: "consistent lc" and len: "length (ids p) = length (deltas p)"
    and small: "sum_list (map abs (deltas p)) \<le> 2 ^ 53"
    and sep: "\<forall>a\<in>set (ids p). \<forall>b\<in>set (ids p). lc a b = 0 \<longrightarrow> a = b"
  shows "id' ` set (merged_slices lc p) = set (ids p)
       \<and> sorted_wrt (\<lambda>a b. lc (id' a) (id' b) < 0) (merged_slices lc p)
       \<and> (\<forall>s\<in>set (merged_slices lc p).
            total s = Num (of_int (delta_sum (id' s) p)) \<and> percentage s = Num 0)"
proof (cases "array_sort lc (build_data p)")
  case Nil
  then have "length (build_data p) = 0"
    using array_sort_length [of lc "build_data p"] by simp
  then have "ids p = []"
    by (simp add: build_data_length)
  with Nil show ?thesis
    by (simp add: merged_slices_def merge_by_id_Nil)
next
  case (Cons c xs)
  have m: "merged_slices lc p = absorb (+) c xs"
    by (simp add: merged_slices_exact [OF len small] Cons merge_exact_def)
  have set_eq: "set (c # xs) = set (build_data p)"
    using set_array_sort [of lc "build_data p"] Cons by simp
  then have ids_eq: "id' ` set (c # xs) = set (ids p)"
    by (simp only: ids_build_data)
  have srt: "sorted_wrt (\<lambda>a b. lc (id' a) (id' b) \<le> 0) (c # xs)"
    using sorted_array_sort [OF con, of "build_data p"] Cons by simp
  have sep': "\<forall>a\<in>id' ` set (c # xs). \<forall>b\<in>id' ` set (c # xs). lc a b = 0 \<longrightarrow> a = b"
    using sep by (simp only: ids_eq)
  from absorb_groups [OF con srt sep'] have g:
    "id' ` set (absorb (+) c xs) = id' ` set (c # xs)"
    "sorted_wrt (\<lambda>a b. lc (id' a) (id' b) < 0) (absorb (+) c xs)"
    "\<forall>s\<in>set (absorb (+) c xs). total s = group_total (id' s) (c # xs)"
    by blast+
  have gt: "\<And>k. group_total k (c # xs) = Num (of_int (delta_sum k p))"
    using group_total_array_sort [of _ lc "build_data p"] Cons
    by (simp add: group_total_build_data [OF len])
  have pc: "\<forall>s\<in>set (absorb (+) c xs). percentage s = Num 0"
  proof (rule absorb_percentage)
    show "percentage c = Num 0"
      using percentage_build_data [of p] set_eq by auto
    show "\<forall>s\<in>set xs. percentage s = Num 0"
      using percentage_build_data [of p] set_eq by auto
  qed
  have tot: "\<forall>s\<in>set (absorb (+) c xs). total s = Num (of_int (delta_sum (id' s) p)) \<and> percentage s = Num 0"
  proof
    fix s
    assume s: "s \<in> set (absorb (+) c xs)"
    then have "total s = group_total (id' s) (c # xs)" using g(3) by blast
    then have "total s = Num (of_int (delta_sum (id' s) p))" by (simp only: gt)
    moreover have "percentage s = Num 0" using pc s by blast
    ultimately show "total s = Num (of_int (delta_sum (id' s) p)) \<and> percentage s = Num 0" ..
  qed
  have "id' ` set (absorb (+) c xs) = set (ids p)"
    using g(1) by (simp only: ids_eq)
  with g(2) tot show ?thesis
    unfolding m by blast
qed

lemma delta_sum_mset:
  "delta_sum k p = sum_mset (image_mset snd (filter_mset (\<lambda>x. fst x = k) (mset (zip (ids p) (deltas p)))))"
  unfolding delta_sum_def
  by (simp only: sum_mset_sum_list [symmetric] mset_map mset_filter)

lemma merged_slices_order_independent:
  assumes con: "consistent lc"
    and lp: "length (ids p) = length (deltas p)" and lq: "length (ids q) = length (deltas q)"
    and small: "sum_list (map abs (deltas p)) \<le> 2 ^ 53"
    and sep: "\<forall>a\<in>set (ids p). \<forall>b\<in>set (ids p). lc a b = 0 \<longrightarrow> a = b"
    and perm: "mset (zip (ids p) (deltas p)) = mset (zip (ids q) (deltas q))"
  shows "merged_slices lc p = merged_slices lc q"
proof -
  have "mset (map snd (zip (ids p) (deltas p))) = mset (map snd (zip (ids q) (deltas q)))"
    by (simp only: mset_map perm)
  then have "mset (deltas p) = mset (deltas q)"
    by (simp only: map_snd_zip [OF lp] map_snd_zip [OF lq])
  then have "mset (map abs (deltas p)) = mset (map abs (deltas q))"
    by (simp only: mset_map)
  then have "sum_list (map abs (deltas p)) = sum_list (map abs (deltas q))"
    by (metis sum_mset_sum_list)
  with small have smallq: "sum_list (map abs (deltas q)) \<le> 2 ^ 53"
    by simp
  have "set (zip (ids p) (deltas p)) = set (zip (ids q) (deltas q))"
    using perm by (metis set_mset_mset)
  then have "fst ` set (zip (ids p) (deltas p)) = fst ` set (zip (ids q) (deltas q))"
    by simp
  moreover have "fst ` set (zip (ids p) (deltas p)) = set (ids p)"
    using lp by (metis map_fst_zip set_map)
  moreover have "fst ` set (zip (ids q) (deltas q)) = set (ids q)"
    using lq by (metis map_fst_zip set_map)
  ultimately have ids: "set (ids q) = set (ids p)" by simp
  have ds: "\<And>k. delta_sum k q = delta_sum k p"
    by (simp only: delta_sum_mset perm)
  have sepq: "\<forall>a\<in>set (ids q). \<forall>b\<in>set (ids q). lc a b = 0 \<longrightarrow> a = b"
    using sep by (simp only: ids)
  let ?mk = "\<lambda>k. \<lparr>id' = k, total = Num (of_int (delta_sum k p)), percentage = Num 0\<rparr>"
  from merged_slices_groups [OF con lp small sep] have gp:
    "id' ` set (merged_slices lc p) = set (ids p)"
    "sorted_wrt (\<lambda>a b. lc (id' a) (id' b) < 0) (merged_slices lc p)"
    "\<forall>s\<in>set (merged_slices lc p). total s = Num (of_int (delta_sum (id' s) p)) \<and> percentage s = Num 0"
    by blast+
  from merged_slices_groups [OF con lq smallq sepq] have gq:
    "id' ` set (merged_slices lc q) = set (ids p)"
    "sorted_wrt (\<lambda>a b. lc (id' a) (id' b) < 0) (merged_slices lc q)"
    "\<forall>s\<in>set (merged_slices lc q). total s = Num (of_int (delta_sum (id' s) p)) \<and> percentage s = Num 0"
    unfolding ids ds by blast+
  have asym: "\<And>a b. lc a b < 0 \<Longrightarrow> \<not> lc b a < 0"
  proof -
    fix a b
    assume "lc a b < 0"
    moreover have "(lc a b < 0) = (0 < lc b a)"
      using con unfolding consistent_def by blast
    ultimately show "\<not> lc b a < 0" by simp
  qed
  have "map id' (merged_slices lc p) = map id' (merged_slices lc q)"
  proof (rule strict_sorted_unique [where r = "\<lambda>a b. lc a b < 0"])
    show "\<And>a b. lc a b < 0 \<Longrightarrow> \<not> lc b a < 0" by (rule asym)
    show "sorted_wrt (\<lambda>a b. lc a b < 0) (map id' (merged_slices lc p))"
      using gp(2) by (simp only: sorted_wrt_map)
    show "sorted_wrt (\<lambda>a b. lc a b < 0) (map id' (merged_slices lc q))"
      using gq(2) by (simp only: sorted_wrt_map)
    show "set (map id' (merged_slices lc p)) = set (map id' (merged_slices lc q))"
      using gp(1) gq(1) by simp
  qed
  moreover have "merged_slices lc p = map ?mk (map id' (merged_slices lc p))"
    using gp(3) by (simp add: map_idI)
  moreover have "merged_slices lc q = map ?mk (map id' (merged_slices lc q))"
    using gq(3) by (simp add: map_idI)
  ultimately show ?thesis by metis
qed

lemma compare_units_le: "compare_units a b \<le> 0 \<longleftrightarrow> a \<le> b"
  by (auto simp: compare_units_def)

lemma compare_units_lt: "compare_units a b < 0 \<longleftrightarrow> a < b"
  by (auto simp: compare_units_def)

lemma compare_units_gt: "0 < compare_units a b \<longleftrightarrow> b < a"
  by (auto simp: compare_units_def)

lemma consistent_canonCompare: "consistent canonCompare"
  unfolding consistent_def canonCompare_def
proof (intro conjI allI impI)
  fix a b c :: jsstring
  show "compare_units (compose_canon a) (compose_canon a) = 0"
    by (simp add: compare_units_def)
  show "(compare_units (compose_canon a) (compose_canon b) < 0)
      = (0 < compare_units (compose_canon b) (compose_canon a))"
    by (simp only: compare_units_lt compare_units_gt)
  assume "compare_units (compose_canon a) (compose_canon b) \<le> 0"
    and "compare_units (compose_canon b) (compose_canon c) \<le> 0"
  then have "compose_canon a \<le> compose_canon b" and "compose_canon b \<le> compose_canon c"
    by (simp_all only: compare_units_le)
  then have "compose_canon a \<le> compose_canon c"
    by (rule order_trans)
  then show "compare_units (compose_canon a) (compose_canon c) \<le> 0"
    by (simp only: compare_units_le)
qed

lemma scenario1_grouped:
  "merged_slices canonCompare scenario1
     = [\<lparr>id' = str ''ext.a'', total = Num (of_int (delta_sum (str ''ext.a'') scenario1)), percentage = Num 0\<rparr>,
        \<lparr>id' = str ''ext.b'', total = Num (of_int (delta_sum (str ''ext.b'') scenario1)), percentage = Num 0\<rparr>]"
proof -
  have len: "length (ids scenario1) = length (deltas scenario1)"
    by (simp add: scenario1_def)
  have small: "sum_list (map abs (deltas scenario1)) \<le> 2 ^ 53"
    by (simp add: scenario1_def)
  have sep: "\<forall>a\<in>set (ids scenario1). \<forall>b\<in>set (ids scenario1). canonCompare a b = 0 \<longrightarrow> a = b"
    by (simp add: scenario1_def str_def canonCompare_def compare_units_def)
  from merged_slices_groups [OF consistent_canonCompare len small sep]
  have "\<forall>s\<in>set (merged_slices canonCompare scenario1).
      total s = Num (of_int (delta_sum (id' s) scenario1)) \<and> percentage s = Num 0"
    by blast
  then show ?thesis
    by (simp add: scenario1_merged)
qed

text \<open>
  Claim C1. One slice per distinct identifier, in ascending order, whose total is the sum
  of the deltas of that identifier, needs the sort to bring equal identifiers together.
  The sort orders by \<^verbatim>\<open>localeCompare\<close> and the merge compares with \<^verbatim>\<open>===\<close>: on
  identifiers that the comparator takes for equal and that differ as strings, the
  hypothesis of the lemmas above on the comparator fails, the sort keeps the input order
  and the merge keeps every slice. For the samples
  \<open>(U+00E9, 1)\<close>, \<open>(U+0065 U+0301, 2)\<close>, \<open>(U+00E9, 4)\<close> the result has two slices for the
  identifier \<open>U+00E9\<close>, with totals 1 and 4, where the claim has one slice with total 5.
\<close>

theorem equivalent_ids_not_merged:
  "canonCompare [0xE9] [0x65, 0x301] = 0
   \<and> merged_slices canonCompare equivalent_ids_profile
       = [\<lparr>id' = [0xE9], total = Num 1, percentage = Num 0\<rparr>,
          \<lparr>id' = [0x65, 0x301], total = Num 2, percentage = Num 0\<rparr>,
          \<lparr>id' = [0xE9], total = Num 4, percentage = Num 0\<rparr>]"
  unfolding equivalent_ids_profile_def
  by code_simp

section \<open>Percentages, the top slice and the report\<close>

lemma percent_loop_eq:
  "percent_loop pc xs t = (map (with_percentage pc) xs, scan_top t (map (with_percentage pc) xs))"
  by (induction xs arbitrary: t) (simp_all add: with_percentage_def Let_def split: option.splits)

lemma js_lt_irrefl: "\<not> js_lt a a"
  by (cases a) simp_all

lemma js_lt_trans: "js_lt a b \<Longrightarrow> js_lt b c \<Longrightarrow> js_lt a c"
  by (cases a; cases b; cases c) simp_all

lemma js_lt_above: "\<not> js_lt t y \<Longrightarrow> js_lt t t' \<Longrightarrow> \<not> js_lt t' y"
  by (cases t; cases y; cases t') simp_all


lemma scan_top_Some:
  "\<exists>t. scan_top (Some t0) ys = Some t
     \<and> \<not> js_lt (percentage t) (percentage t0)
     \<and> (\<forall>j<length ys. \<not> js_lt (percentage t) (percentage (ys ! j)))
     \<and> (t = t0 \<or> js_lt (percentage t0) (percentage t)
           \<and> (\<exists>i<length ys. t = ys ! i \<and> (\<forall>j<i. percentage (ys ! j) \<noteq> percentage t)))"
proof (induction ys arbitrary: t0)
  case Nil
  show ?case by (simp add: js_lt_irrefl)
next
  case (Cons y ys)
  show ?case
  proof (cases "js_lt (percentage t0) (percentage y)")
    case True
    from Cons.IH [of y] obtain t where t:
      "scan_top (Some y) ys = Some t"
      "\<not> js_lt (percentage t) (percentage y)"
      "\<forall>j<length ys. \<not> js_lt (percentage t) (percentage (ys ! j))"
      "t = y \<or> js_lt (percentage y) (percentage t)
           \<and> (\<exists>i<length ys. t = ys ! i \<and> (\<forall>j<i. percentage (ys ! j) \<noteq> percentage t))"
      by blast
    have lt: "js_lt (percentage t0) (percentage t)"
      using t(4) True js_lt_trans by blast
    have a: "\<not> js_lt (percentage t) (percentage t0)"
      using lt js_lt_trans js_lt_irrefl by blast
    have b: "\<forall>j<length (y # ys). \<not> js_lt (percentage t) (percentage ((y # ys) ! j))"
      using t(2,3) by (auto simp: nth_Cons split: nat.splits)
    have c: "\<exists>i<length (y # ys). t = (y # ys) ! i \<and> (\<forall>j<i. percentage ((y # ys) ! j) \<noteq> percentage t)"
    proof (cases "t = y")
      case True
      then show ?thesis by (intro exI [of _ 0]) simp
    next
      case False
      with t(4) obtain i where i: "js_lt (percentage y) (percentage t)" "i < length ys" "t = ys ! i"
        "\<forall>j<i. percentage (ys ! j) \<noteq> percentage t"
        by blast
      have "\<forall>j<Suc i. percentage ((y # ys) ! j) \<noteq> percentage t"
        using i(1,4) js_lt_irrefl by (auto simp: nth_Cons split: nat.splits)
      with i(2,3) show ?thesis by (intro exI [of _ "Suc i"]) simp
    qed
    show ?thesis using True t(1) a b c lt by simp
  next
    case False
    from Cons.IH [of t0] obtain t where t:
      "scan_top (Some t0) ys = Some t"
      "\<not> js_lt (percentage t) (percentage t0)"
      "\<forall>j<length ys. \<not> js_lt (percentage t) (percentage (ys ! j))"
      "t = t0 \<or> js_lt (percentage t0) (percentage t)
           \<and> (\<exists>i<length ys. t = ys ! i \<and> (\<forall>j<i. percentage (ys ! j) \<noteq> percentage t))"
      by blast
    have ny: "\<not> js_lt (percentage t) (percentage y)"
      using t(4) False js_lt_above by blast
    have b: "\<forall>j<length (y # ys). \<not> js_lt (percentage t) (percentage ((y # ys) ! j))"
      using ny t(3) by (auto simp: nth_Cons split: nat.splits)
    have c: "t = t0 \<or> js_lt (percentage t0) (percentage t)
           \<and> (\<exists>i<length (y # ys). t = (y # ys) ! i \<and> (\<forall>j<i. percentage ((y # ys) ! j) \<noteq> percentage t))"
    proof (cases "t = t0")
      case True
      then show ?thesis by simp
    next
      case False
      with t(4) obtain i where i: "js_lt (percentage t0) (percentage t)" "i < length ys" "t = ys ! i"
        "\<forall>j<i. percentage (ys ! j) \<noteq> percentage t"
        by blast
      have "percentage y \<noteq> percentage t"
        using i(1) \<open>\<not> js_lt (percentage t0) (percentage y)\<close> by auto
      then have "\<forall>j<Suc i. percentage ((y # ys) ! j) \<noteq> percentage t"
        using i(4) by (auto simp: nth_Cons split: nat.splits)
      with i(1,2,3) show ?thesis by (intro disjI2 conjI exI [of _ "Suc i"]) simp_all
    qed
    show ?thesis using False t(1,2) b c by simp
  qed
qed

lemma scan_top_None:
  assumes "ys \<noteq> []"
  shows "\<exists>i<length ys. scan_top None ys = Some (ys ! i)
     \<and> (\<forall>j<length ys. \<not> js_lt (percentage (ys ! i)) (percentage (ys ! j)))
     \<and> (\<forall>j<i. percentage (ys ! j) \<noteq> percentage (ys ! i))"
proof -
  from assms obtain y zs where ys: "ys = y # zs" by (cases ys) auto
  from scan_top_Some [of y zs] obtain t where t:
      "scan_top (Some y) zs = Some t"
      "\<not> js_lt (percentage t) (percentage y)"
      "\<forall>j<length zs. \<not> js_lt (percentage t) (percentage (zs ! j))"
      "t = y \<or> js_lt (percentage y) (percentage t)
           \<and> (\<exists>i<length zs. t = zs ! i \<and> (\<forall>j<i. percentage (zs ! j) \<noteq> percentage t))"
    by blast
  have b: "\<forall>j<length ys. \<not> js_lt (percentage t) (percentage (ys ! j))"
    using t(2,3) ys by (auto simp: nth_Cons split: nat.splits)
  show ?thesis
  proof (cases "t = y")
    case True
    with t(1) b ys show ?thesis by (intro exI [of _ 0]) simp
  next
    case False
    with t(4) obtain i where i: "js_lt (percentage y) (percentage t)" "i < length zs" "t = zs ! i"
      "\<forall>j<i. percentage (zs ! j) \<noteq> percentage t"
      by blast
    have "\<forall>j<Suc i. percentage (ys ! j) \<noteq> percentage t"
      using i(1,4) ys js_lt_irrefl by (auto simp: nth_Cons split: nat.splits)
    with i(2,3) t(1) b ys show ?thesis by (intro exI [of _ "Suc i"]) simp
  qed
qed

lemma scan_top_Nil_iff: "scan_top None ys = None \<longleftrightarrow> ys = []"
  using scan_top_None [of ys] by (cases ys) auto

lemma processCpuProfile_eq:
  "processCpuProfile lc uuid p =
     (case scan_top None (map (with_percentage (percentage_unit p)) (merged_slices lc p)) of
        None \<Rightarrow> None
      | Some t \<Rightarrow>
          Some \<lparr>report_id = uuid,
                duration = js_sub (Num (of_int (endTime p))) (Num (of_int (startTime p))),
                slices = map (with_percentage (percentage_unit p)) (merged_slices lc p),
                top_slice = t\<rparr>)"
  by (simp only: processCpuProfile_def percent_loop_eq percentage_unit_def Let_def prod.case)

lemma processCpuProfile_None: "processCpuProfile lc uuid p = None \<longleftrightarrow> ids p = []"
proof -
  have "processCpuProfile lc uuid p = None \<longleftrightarrow>
      scan_top None (map (with_percentage (percentage_unit p)) (merged_slices lc p)) = None"
    by (simp add: processCpuProfile_eq split: option.splits)
  then show ?thesis
    by (simp add: scan_top_Nil_iff merged_slices_empty)
qed

lemma processCpuProfile_slices:
  assumes "processCpuProfile lc uuid p = Some r"
  shows "slices r = map (with_percentage (percentage_unit p)) (merged_slices lc p)"
    and "scan_top None (slices r) = Some (top_slice r)"
    and "duration r = js_sub (Num (of_int (endTime p))) (Num (of_int (startTime p)))"
    and "report_id r = uuid"
  using assms by (auto simp: processCpuProfile_eq split: option.splits)

text \<open>
  The error of the quotient of the percentage: the difference, the unit
  \<^verbatim>\<open>duration / 100\<close> and the quotient by it are each rounded.
\<close>

lemma percentage_quotient_error:
  fixes t d :: int
  assumes d: "0 < d" and t: "\<bar>t\<bar> \<le> 10 ^ 13"
  shows "\<bar>binary64 (of_int t / binary64 (binary64 (of_int d) / 100)) - of_int t * 100 / of_int d\<bar>
           < 1 / (2 * of_int d)"
proof -
  define eps :: rat where "eps = 1 / 2 ^ 53"
  define eps2 :: rat where "eps2 = 2 * eps + eps * eps"
  define a :: rat where "a = of_int d / 100"
  define D where "D = binary64 (of_int d)"
  define u where "u = binary64 (D / 100)"
  define w where "w = of_int t / u"
  define q where "q = binary64 w"
  define v :: rat where "v = of_int t / a"
  define T :: rat where "T = \<bar>of_int t\<bar>"
  have a_pos: "0 < a" using d by (simp add: a_def)
  have eps: "0 < eps" "eps < 1" by (simp_all add: eps_def)
  have eps2: "0 < eps2" "eps2 < 1" "eps \<le> eps2" by (simp_all add: eps2_def eps_def)
  have T0: "0 \<le> T" by (simp add: T_def)
  have T: "T \<le> 10 ^ 13"
  proof -
    have "T = of_int \<bar>t\<bar>" by (simp add: T_def)
    also have "\<dots> \<le> of_int (10 ^ 13)" using t by (simp only: of_int_le_iff)
    finally show ?thesis by simp
  qed
  have Dd: "\<bar>D - of_int d\<bar> \<le> of_int d * eps"
    using binary64_error [of "of_int d"] d by (simp add: D_def eps_def)
  have D_pos: "0 < D"
    unfolding D_def using d by (intro binary64_pos) simp
  have Da: "\<bar>D / 100 - a\<bar> \<le> a * eps"
  proof -
    have "D / 100 - a = (D - of_int d) / 100" by (simp add: a_def diff_divide_distrib)
    then have "\<bar>D / 100 - a\<bar> = \<bar>D - of_int d\<bar> / 100" by (simp only: abs_divide abs_numeral)
    also have "\<dots> \<le> of_int d * eps / 100" using Dd by (simp add: divide_right_mono)
    finally show ?thesis by (simp add: a_def)
  qed
  then have D_hi: "D / 100 \<le> a * (1 + eps)"
    by (simp add: abs_le_iff algebra_simps)
  have uD: "\<bar>u - D / 100\<bar> \<le> D / 100 * eps"
    using binary64_error [of "D / 100"] D_pos by (simp add: u_def eps_def)
  also have "\<dots> \<le> a * (1 + eps) * eps"
    using D_hi eps by (intro mult_right_mono) simp_all
  finally have uD': "\<bar>u - D / 100\<bar> \<le> a * (1 + eps) * eps" .
  have "\<bar>u - a\<bar> \<le> \<bar>u - D / 100\<bar> + \<bar>D / 100 - a\<bar>" by simp
  also have "\<dots> \<le> a * (1 + eps) * eps + a * eps" using uD' Da by simp
  also have "\<dots> = a * eps2" by (simp add: eps2_def algebra_simps)
  finally have ua: "\<bar>u - a\<bar> \<le> a * eps2" .
  then have u_lo: "a * (1 - eps2) \<le> u"
    by (simp add: abs_le_iff algebra_simps)
  have lo_pos: "0 < a * (1 - eps2)" using a_pos eps2 by simp
  with u_lo have u_pos: "0 < u" by linarith
  have qw: "\<bar>q - w\<bar> \<le> T / u * eps2"
  proof -
    have "\<bar>w\<bar> = T / u" using u_pos by (simp add: w_def T_def abs_divide)
    with binary64_error [of w] have "\<bar>q - w\<bar> \<le> T / u * eps" by (simp add: q_def eps_def)
    also have "\<dots> \<le> T / u * eps2"
      using eps2(3) T0 u_pos by (intro mult_left_mono) simp_all
    finally show ?thesis .
  qed
  have wv: "\<bar>w - v\<bar> \<le> T / u * eps2"
  proof -
    have "w - v = of_int t * ((a - u) / (u * a))"
      using u_pos a_pos by (simp add: w_def v_def field_simps)
    then have "\<bar>w - v\<bar> = T * (\<bar>u - a\<bar> / (u * a))"
      using u_pos a_pos by (simp add: T_def abs_mult abs_divide abs_minus_commute)
    also have "\<dots> \<le> T * (a * eps2 / (u * a))"
      using ua u_pos a_pos T0 by (intro mult_left_mono divide_right_mono) simp_all
    also have "\<dots> = T / u * eps2"
      using a_pos u_pos by simp
    finally show ?thesis .
  qed
  have "\<bar>q - v\<bar> \<le> \<bar>q - w\<bar> + \<bar>w - v\<bar>" by simp
  also have "\<dots> \<le> 2 * (T / u * eps2)" using qw wv by simp
  also have "\<dots> \<le> 2 * (T / (a * (1 - eps2)) * eps2)"
  proof -
    have "T / u \<le> T / (a * (1 - eps2))"
      using u_lo T0 lo_pos by (intro divide_left_mono) simp_all
    then have "T / u * eps2 \<le> T / (a * (1 - eps2)) * eps2"
      using eps2 by (intro mult_right_mono) simp_all
    then show ?thesis by linarith
  qed
  also have "\<dots> = (400 * T * eps2 / (1 - eps2)) * (1 / (2 * of_int d))"
    using d eps2 by (simp add: a_def field_simps)
  also have "\<dots> < 1 * (1 / (2 * of_int d))"
  proof (rule mult_strict_right_mono)
    have "400 * T * eps2 \<le> 400 * 10 ^ 13 * eps2"
      using T eps2 by simp
    also have "\<dots> < 1 - eps2" by (simp add: eps2_def eps_def)
    finally show "400 * T * eps2 / (1 - eps2) < 1"
      using eps2 by simp
    show "0 < 1 / (2 * (of_int d :: rat))" using d by simp
  qed
  finally have "\<bar>q - v\<bar> < 1 / (2 * of_int d)" by simp
  moreover have "v = of_int t * 100 / of_int d"
    by (simp add: v_def a_def)
  ultimately show ?thesis
    by (simp add: q_def w_def u_def D_def)
qed

lemma nearest_integer:
  fixes t d :: int and q :: rat
  assumes d: "0 < d" and q: "\<bar>q - of_int t * 100 / of_int d\<bar> < 1 / (2 * of_int d)"
  shows "\<bar>of_int \<lfloor>q + 1 / 2\<rfloor> - (of_int t * 100 / of_int d :: rat)\<bar> \<le> 1 / 2"
proof -
  define p where "p = \<lfloor>q + 1 / 2\<rfloor>"
  define v :: rat where "v = of_int t * 100 / of_int d"
  have dpos: "0 < (of_int d :: rat)" using d by simp
  have p1: "of_int p \<le> q + 1 / 2" and p2: "q + 1 / 2 < of_int p + 1"
    unfolding p_def by linarith+
  have qv: "q - v < 1 / (2 * of_int d)" "v - q < 1 / (2 * of_int d)"
    using q by (simp_all add: v_def abs_less_iff)
  have vd: "v * (2 * of_int d) = of_int (200 * t)"
    using dpos by (simp add: v_def)
  have m1: "(of_int p - 1 / 2) * (2 * of_int d) = (of_int ((2 * p - 1) * d) :: rat)"
    and m2: "(of_int p + 1 / 2) * (2 * of_int d) = (of_int ((2 * p + 1) * d) :: rat)"
    by (simp_all add: algebra_simps)
  have half: "\<And>x y :: rat. x * (2 * of_int d) + 1 \<le> y * (2 * of_int d) \<Longrightarrow> x + 1 / (2 * of_int d) \<le> y"
  proof -
    fix x y :: rat
    assume "x * (2 * of_int d) + 1 \<le> y * (2 * of_int d)"
    then have "(x + 1 / (2 * of_int d)) * (2 * of_int d) \<le> y * (2 * of_int d)"
      using dpos by (simp add: distrib_right)
    then show "x + 1 / (2 * of_int d) \<le> y"
      using dpos by (simp only: mult_le_cancel_right)
  qed
  have up: "of_int p - v \<le> 1 / 2"
  proof (rule ccontr)
    assume "\<not> of_int p - v \<le> 1 / 2"
    then have "v < of_int p - 1 / 2" by simp
    then have "v * (2 * of_int d) < (of_int p - 1 / 2) * (2 * of_int d)"
      using dpos by (intro mult_strict_right_mono) simp_all
    then have "(of_int (200 * t) :: rat) < of_int ((2 * p - 1) * d)"
      by (simp only: vd m1)
    then have "200 * t < (2 * p - 1) * d" by (simp only: of_int_less_iff)
    then have "200 * t + 1 \<le> (2 * p - 1) * d" by simp
    then have "(of_int (200 * t + 1) :: rat) \<le> of_int ((2 * p - 1) * d)" by (simp only: of_int_le_iff)
    then have "(of_int (200 * t) :: rat) + 1 \<le> of_int ((2 * p - 1) * d)" by simp
    then have "v * (2 * of_int d) + 1 \<le> (of_int p - 1 / 2) * (2 * of_int d)"
      by (simp only: vd m1)
    then have "v + 1 / (2 * of_int d) \<le> of_int p - 1 / 2"
      by (rule half)
    with p1 qv(1) show False by linarith
  qed
  have lo: "v - of_int p \<le> 1 / 2"
  proof (rule ccontr)
    assume "\<not> v - of_int p \<le> 1 / 2"
    then have "of_int p + 1 / 2 < v" by simp
    then have "(of_int p + 1 / 2) * (2 * of_int d) < v * (2 * of_int d)"
      using dpos by (intro mult_strict_right_mono) simp_all
    then have "(of_int ((2 * p + 1) * d) :: rat) < of_int (200 * t)"
      by (simp only: vd m2)
    then have "(2 * p + 1) * d < 200 * t" by (simp only: of_int_less_iff)
    then have "(2 * p + 1) * d + 1 \<le> 200 * t" by simp
    then have "(of_int ((2 * p + 1) * d + 1) :: rat) \<le> of_int (200 * t)" by (simp only: of_int_le_iff)
    then have "(of_int ((2 * p + 1) * d) :: rat) + 1 \<le> of_int (200 * t)" by simp
    then have "(of_int p + 1 / 2) * (2 * of_int d) + 1 \<le> v * (2 * of_int d)"
      by (simp only: vd m2)
    then have "of_int p + 1 / 2 + 1 / (2 * of_int d) \<le> v"
      by (rule half)
    with p2 qv(2) show False by linarith
  qed
  from up lo have "\<bar>of_int p - v\<bar> \<le> 1 / 2"
    by (simp only: abs_le_iff) simp
  then show ?thesis
    by (simp only: p_def v_def)
qed

lemma nearest_unique:
  fixes t d n :: int
  assumes d: "0 < d" and near: "\<bar>of_int n - (of_int t * 100 / of_int d :: rat)\<bar> \<le> 1 / 2"
    and no_tie: "\<forall>k::int. 200 * t \<noteq> (2 * k + 1) * d"
  shows "n = \<lfloor>(of_int t * 100 / of_int d :: rat) + 1 / 2\<rfloor>"
proof -
  define v :: rat where "v = of_int t * 100 / of_int d"
  have dpos: "0 < (of_int d :: rat)" using d by simp
  have "\<bar>of_int n - v\<bar> \<le> 1 / 2"
    using near by (simp only: v_def)
  then have lo: "of_int n \<le> v + 1 / 2" and hi: "v + 1 / 2 \<le> of_int n + 1"
    by linarith+
  have "v + 1 / 2 \<noteq> of_int n + 1"
  proof
    assume "v + 1 / 2 = of_int n + 1"
    then have "v = of_int n + 1 / 2" by simp
    then have "v * (2 * of_int d) = (of_int n + 1 / 2) * (2 * of_int d)" by simp
    moreover have "v * (2 * of_int d) = of_int (200 * t)"
      using dpos by (simp add: v_def)
    moreover have "(of_int n + 1 / 2) * (2 * of_int d) = (of_int ((2 * n + 1) * d) :: rat)"
      by (simp add: algebra_simps)
    ultimately have "(of_int (200 * t) :: rat) = of_int ((2 * n + 1) * d)" by simp
    then have "200 * t = (2 * n + 1) * d" by (simp only: of_int_eq_iff)
    with no_tie show False by blast
  qed
  with hi have "v + 1 / 2 < of_int n + 1" by simp
  with lo have "\<lfloor>v + 1 / 2\<rfloor> = n" by (simp add: floor_unique)
  then show ?thesis by (simp add: v_def)
qed

lemma scenario1_report:
  "processCpuProfile canonCompare 0 scenario1
     = Some \<lparr>report_id = 0, duration = Num 6000000,
             slices = [\<lparr>id' = str ''ext.a'', total = Num 5500000, percentage = Num 92\<rparr>,
                       \<lparr>id' = str ''ext.b'', total = Num 500000, percentage = Num 8\<rparr>],
             top_slice = \<lparr>id' = str ''ext.a'', total = Num 5500000, percentage = Num 92\<rparr>\<rparr>"
  unfolding scenario1_def by code_simp

lemma scenario2_report:
  "processCpuProfile canonCompare 0 scenario2
     = Some \<lparr>report_id = 0, duration = Num 10000000,
             slices = [\<lparr>id' = str ''ext.c'', total = Num 9900000, percentage = Num 99\<rparr>],
             top_slice = \<lparr>id' = str ''ext.c'', total = Num 9900000, percentage = Num 99\<rparr>\<rparr>"
  unfolding scenario2_def by code_simp












lemma tie_down_report:
  "processCpuProfile canonCompare 0 tie_down_profile
     = Some \<lparr>report_id = 0, duration = Num 56,
             slices = [\<lparr>id' = str ''a'', total = Num 7, percentage = Num 12\<rparr>],
             top_slice = \<lparr>id' = str ''a'', total = Num 7, percentage = Num 12\<rparr>\<rparr>"
  unfolding tie_down_profile_def by code_simp

lemma tie_up_report:
  "processCpuProfile canonCompare 0 tie_up_profile
     = Some \<lparr>report_id = 0, duration = Num 8,
             slices = [\<lparr>id' = str ''a'', total = Num 1, percentage = Num 13\<rparr>],
             top_slice = \<lparr>id' = str ''a'', total = Num 1, percentage = Num 13\<rparr>\<rparr>"
  unfolding tie_up_profile_def by code_simp

text \<open>
  Claim C5, as stated, fails where \<open>total * 100 / duration\<close> lies halfway between two
  whole numbers. A total of 7 over a duration of 56 and a total of 1 over a duration of 8
  are both 12.5 percent. \<^verbatim>\<open>56 / 100\<close> is rounded up to the binary64 value
  \<open>0.56000000000000005329\<close>, 7 divided by it is rounded to \<open>12.499999999999998224\<close>, and
  \<^verbatim>\<open>Math.round\<close> gives 12; \<^verbatim>\<open>1 / (8 / 100)\<close> is rounded to \<open>12.5\<close> and gives 13, as
  \<^verbatim>\<open>Math.round(total * 100 / duration)\<close> does for both. No rounding function of
  \<open>total * 100 / duration\<close> gives both percentages.
\<close>

theorem tie_rounds_both_ways:
  "map_option (map percentage \<circ> slices) (processCpuProfile canonCompare 0 tie_down_profile)
     = Some [Num 12]
   \<and> map_option (map percentage \<circ> slices) (processCpuProfile canonCompare 0 tie_up_profile)
     = Some [Num 13]
   \<and> (7 * 100 / 56 :: rat) = 1 * 100 / 8
   \<and> Math_round (js_div (Num (7 * 100)) (Num 56)) = Num 13
   \<and> Math_round (js_div (Num (1 * 100)) (Num 8)) = Num 13"
proof -
  have "Math_round (js_div (Num (7 * 100)) (Num 56)) = Num 13"
    and "Math_round (js_div (Num (1 * 100)) (Num 8)) = Num 13"
    by code_simp+
  then show ?thesis
    by (simp add: tie_down_report tie_up_report)
qed

text \<open>
  Claim C5, amended. In a profile whose duration \<open>endTime - startTime\<close> is positive, the
  percentage of every slice of the report is \<^verbatim>\<open>Math.round(total / (duration / 100))\<close>
  in binary64 arithmetic. For a whole total of at most \<open>10^13\<close> in absolute value it is a
  whole number at most one half away from \<open>total * 100 / duration\<close>; so it is
  \<open>\<lfloor>total * 100 / duration + 1/2\<rfloor>\<close> unless \<open>total * 100 / duration\<close> lies halfway between two
  whole numbers, where it is one of the two. With index-aligned \<open>ids\<close> and \<open>deltas\<close> of
  equal length every total is a whole number. Deltas that sum to 5,500,000 over a
  duration of 6,000,000 give 92, and a delta of 9,900,000 over 10,000,000 gives 99.
\<close>

theorem percentage_is_rounded_share:
  assumes "processCpuProfile lc uuid p = Some r" and "s \<in> set (slices r)"
    and "0 < endTime p - startTime p"
  shows "percentage s = Math_round (js_div (total s) (js_div (duration r) (Num 100)))
     \<and> (\<forall>t::int. total s = Num (of_int t) \<longrightarrow> \<bar>t\<bar> \<le> 10 ^ 13 \<longrightarrow>
          (\<exists>n::int. percentage s = Num (of_int n)
             \<and> \<bar>of_int n - (of_int t * 100 / of_int (endTime p - startTime p) :: rat)\<bar> \<le> 1 / 2
             \<and> ((\<forall>k::int. 200 * t \<noteq> (2 * k + 1) * (endTime p - startTime p)) \<longrightarrow>
                   n = \<lfloor>(of_int t * 100 / of_int (endTime p - startTime p) :: rat) + 1 / 2\<rfloor>)))
     \<and> (length (ids p) = length (deltas p) \<longrightarrow> (\<exists>t::int. total s = Num (of_int t)))"
proof (intro conjI allI impI)
  let ?d = "endTime p - startTime p"
  from assms(1,2) obtain m where m: "m \<in> set (merged_slices lc p)"
    "s = with_percentage (percentage_unit p) m"
    by (auto simp: processCpuProfile_slices(1))
  have unit: "js_div (duration r) (Num 100) = percentage_unit p"
    using assms(1) by (simp add: processCpuProfile_slices(3) percentage_unit_def)
  show p1: "percentage s = Math_round (js_div (total s) (js_div (duration r) (Num 100)))"
    using m(2) unit by (simp add: with_percentage_def)
  {
    fix t :: int
    assume ts: "total s = Num (of_int t)" and bound: "\<bar>t\<bar> \<le> 10 ^ 13"
    let ?u = "binary64 (binary64 (of_int ?d) / 100)"
    let ?q = "binary64 (of_int t / ?u)"
    have "0 < binary64 (of_int ?d)"
      using assms(3) by (intro binary64_pos) simp
    then have "0 < ?u"
      by (intro binary64_pos) simp
    then have "js_div (Num (of_int t)) (percentage_unit p) = Num ?q"
      by (simp add: percentage_unit_def)
    then have pq: "percentage s = Num (of_int \<lfloor>?q + 1 / 2\<rfloor>)"
      using p1 ts unit by simp
    have near: "\<bar>of_int \<lfloor>?q + 1 / 2\<rfloor> - (of_int t * 100 / of_int ?d :: rat)\<bar> \<le> 1 / 2"
      using assms(3) bound by (intro nearest_integer percentage_quotient_error)
    have "(\<forall>k::int. 200 * t \<noteq> (2 * k + 1) * ?d) \<longrightarrow>
        \<lfloor>?q + 1 / 2\<rfloor> = \<lfloor>(of_int t * 100 / of_int ?d :: rat) + 1 / 2\<rfloor>"
      using nearest_unique [OF assms(3) near] by blast
    with pq near show "\<exists>n::int. percentage s = Num (of_int n)
        \<and> \<bar>of_int n - (of_int t * 100 / of_int ?d :: rat)\<bar> \<le> 1 / 2
        \<and> ((\<forall>k::int. 200 * t \<noteq> (2 * k + 1) * ?d) \<longrightarrow>
              n = \<lfloor>(of_int t * 100 / of_int ?d :: rat) + 1 / 2\<rfloor>)"
      by blast
  }
  assume "length (ids p) = length (deltas p)"
  from merged_slices_int_total [OF this] m(1) obtain n :: int where "total m = Num (of_int n)"
    by blast
  then show "\<exists>t::int. total s = Num (of_int t)"
    using m(2) by (simp add: with_percentage_def)
qed

theorem percentage_is_rounded_share_witness:
  "0 < endTime scenario1 - startTime scenario1
   \<and> map_option (map percentage \<circ> slices) (processCpuProfile canonCompare 0 scenario1)
        = Some [Num 92, Num 8]
   \<and> \<bar>92 - (5500000 * 100 / 6000000 :: rat)\<bar> \<le> 1 / 2
   \<and> map_option (map percentage \<circ> slices) (processCpuProfile canonCompare 0 scenario2)
        = Some [Num 99]"
proof -
  let ?r = "\<lparr>report_id = 0, duration = Num 6000000,
             slices = [\<lparr>id' = str ''ext.a'', total = Num 5500000, percentage = Num 92\<rparr>,
                       \<lparr>id' = str ''ext.b'', total = Num 500000, percentage = Num 8\<rparr>],
             top_slice = \<lparr>id' = str ''ext.a'', total = Num 5500000, percentage = Num 92\<rparr>\<rparr>"
  let ?s = "\<lparr>id' = str ''ext.a'', total = Num 5500000, percentage = Num 92\<rparr>"
  have pos: "0 < endTime scenario1 - startTime scenario1"
    by (simp add: scenario1_def)
  have mem: "?s \<in> set (slices ?r)" by simp
  have t: "total ?s = Num (of_int 5500000)" and b: "\<bar>5500000 :: int\<bar> \<le> 10 ^ 13"
    by simp_all
  from percentage_is_rounded_share [OF scenario1_report mem pos] t b
  obtain n :: int where n: "percentage ?s = Num (of_int n)"
    "\<bar>of_int n - (of_int 5500000 * 100 / of_int (endTime scenario1 - startTime scenario1) :: rat)\<bar> \<le> 1 / 2"
    by blast
  from n(1) have "n = 92" by simp
  with n(2) have "\<bar>92 - (5500000 * 100 / 6000000 :: rat)\<bar> \<le> 1 / 2"
    by (simp add: scenario1_def)
  with pos show ?thesis
    by (simp add: scenario1_report scenario2_report)
qed

text \<open>
  Claim C3. For every report with a top slice, the flag \<^verbatim>\<open>prompt\<close> is true if and only
  if \<open>top.percentage >= 99\<close> and \<open>top.total >= 5,000,000\<close>. When the identifier of
  the top slice resolves to an extension, the notification is shown exactly when the
  flag is true, and the telemetry event \<^verbatim>\<open>exthostunresponsive\<close> carries the flag.
\<close>

theorem prompt_threshold:
  assumes "processCpuProfile lc uuid p = Some r"
  shows "prompt r = (js_ge (percentage (top_slice r)) (Num 99) \<and> js_ge (total (top_slice r)) (Num 5000000))
     \<and> ((\<exists>n secs. NotificationPrompt n secs \<in> set (report_callback r (Some e) path written :: 't effect list))
          = prompt r)
     \<and> (written \<longrightarrow> PublicLog uuid (duration r) (slices r) (prompt r)
            \<in> set (report_callback r (Some e) path written :: 't effect list))
     \<and> (\<forall>i d sl b. PublicLog i d sl b \<in> set (report_callback r (Some e) path written :: 't effect list)
            \<longrightarrow> b = prompt r)"
  using processCpuProfile_slices(4) [OF assms]
  by (auto simp: report_callback_def prompt_def)

theorem prompt_threshold_witness:
  "map_option prompt (processCpuProfile canonCompare 0 scenario2) = Some True
   \<and> map_option prompt (processCpuProfile canonCompare 0 scenario1) = Some False
   \<and> map_option (\<lambda>r. report_callback r (Some some_extension) 0 True) (processCpuProfile canonCompare 0 scenario2)
       = Some [SetUnresponsiveProfile (str ''a''), NotificationPrompt (str ''A'') (Num 10), WriteFile 0,
          LogWarn (str ''ext.c'') (Num 99) (Num 10000) 0
            [\<lparr>id' = str ''ext.c'', total = Num 9900000, percentage = Num 99\<rparr>],
          PublicLog 0 (Num 10000000) [\<lparr>id' = str ''ext.c'', total = Num 9900000, percentage = Num 99\<rparr>] True
          :: nat effect]"
proof -
  from prompt_threshold [OF scenario2_report, THEN conjunct1]
  have "prompt \<lparr>report_id = 0, duration = Num 10000000,
             slices = [\<lparr>id' = str ''ext.c'', total = Num 9900000, percentage = Num 99\<rparr>],
             top_slice = \<lparr>id' = str ''ext.c'', total = Num 9900000, percentage = Num 99\<rparr>\<rparr>"
    by simp
  moreover from prompt_threshold [OF scenario1_report, THEN conjunct1]
  have "\<not> prompt \<lparr>report_id = 0, duration = Num 6000000,
             slices = [\<lparr>id' = str ''ext.a'', total = Num 5500000, percentage = Num 92\<rparr>,
                       \<lparr>id' = str ''ext.b'', total = Num 500000, percentage = Num 8\<rparr>],
             top_slice = \<lparr>id' = str ''ext.a'', total = Num 5500000, percentage = Num 92\<rparr>\<rparr>"
    by simp
  moreover have "Math_round (js_div (Num 10000000) (Num 1000000)) = Num 10"
    and "js_div (Num 10000000) (Num 1000) = Num 10000"
    by code_simp+
  ultimately show ?thesis
    by (simp add: scenario1_report scenario2_report report_callback_def some_extension_def display_name_def)
qed

text \<open>
  Claim C6, as stated, fails for a duration that is not positive. The profile with the
  one sample \<open>(a, 5,000,000)\<close> and a duration of zero gets the percentage \<open>Infinity\<close>,
  and its report prompts, writes the file and logs the telemetry event; the profile with
  the sample \<open>(a, 100)\<close> and the duration \<open>-1000\<close> is reported with the percentage \<open>-10\<close>.
\<close>

theorem degenerate_duration_is_reported:
  "endTime zero_duration_profile - startTime zero_duration_profile \<le> 0
   \<and> processCpuProfile canonCompare 0 zero_duration_profile
       = Some \<lparr>report_id = 0, duration = Num 0,
               slices = [\<lparr>id' = str ''a'', total = Num 5000000, percentage = PosInf\<rparr>],
               top_slice = \<lparr>id' = str ''a'', total = Num 5000000, percentage = PosInf\<rparr>\<rparr>
   \<and> report_callback
        \<lparr>report_id = 0, duration = Num 0,
          slices = [\<lparr>id' = str ''a'', total = Num 5000000, percentage = PosInf\<rparr>],
          top_slice = \<lparr>id' = str ''a'', total = Num 5000000, percentage = PosInf\<rparr>\<rparr>
        (Some some_extension) 0 True
       = [SetUnresponsiveProfile (str ''a''), NotificationPrompt (str ''A'') (Num 0), WriteFile 0,
          LogWarn (str ''a'') PosInf (Num 0) 0
            [\<lparr>id' = str ''a'', total = Num 5000000, percentage = PosInf\<rparr>],
          PublicLog 0 (Num 0) [\<lparr>id' = str ''a'', total = Num 5000000, percentage = PosInf\<rparr>] True
          :: nat effect]
   \<and> endTime negative_duration_profile - startTime negative_duration_profile \<le> 0
   \<and> processCpuProfile canonCompare 0 negative_duration_profile
       = Some \<lparr>report_id = 0, duration = Num (- 1000),
               slices = [\<lparr>id' = str ''a'', total = Num 100, percentage = Num (- 10)\<rparr>],
               top_slice = \<lparr>id' = str ''a'', total = Num 100, percentage = Num (- 10)\<rparr>\<rparr>
   \<and> report_callback
        \<lparr>report_id = 0, duration = Num (- 1000),
          slices = [\<lparr>id' = str ''a'', total = Num 100, percentage = Num (- 10)\<rparr>],
          top_slice = \<lparr>id' = str ''a'', total = Num 100, percentage = Num (- 10)\<rparr>\<rparr>
        (Some some_extension) 0 True
       = [SetUnresponsiveProfile (str ''a''), WriteFile 0,
          LogWarn (str ''a'') (Num (- 10)) (Num (- 1)) 0
            [\<lparr>id' = str ''a'', total = Num 100, percentage = Num (- 10)\<rparr>],
          PublicLog 0 (Num (- 1000)) [\<lparr>id' = str ''a'', total = Num 100, percentage = Num (- 10)\<rparr>] False
          :: nat effect]"
  unfolding zero_duration_profile_def negative_duration_profile_def some_extension_def
  by code_simp

text \<open>
  Claim C6, amended. Aggregation produces no report exactly for the profiles with no
  sample, whatever their duration. For such a profile the episode is nothing to report:
  the piece of the class that receives the profile removes the entry of the target and
  does nothing else, so there is no lookup of an extension, no prompt, no telemetry
  event, no file and no error.
\<close>

theorem empty_profile_reports_nothing:
  "(processCpuProfile lc uuid p = None) = (ids p = [])
   \<and> (ids p = [] \<longrightarrow> tasks s k = Some (t, AwaitStop) \<longrightarrow>
        step lc s (StopSettled k (Some p) uuid)
          = s\<lparr>session := (session s)(t := None), tasks := (tasks s)(k := None)\<rparr>)"
proof (intro conjI impI)
  show "(processCpuProfile lc uuid p = None) = (ids p = [])"
    by (rule processCpuProfile_None)
next
  assume "ids p = []" and k: "tasks s k = Some (t, AwaitStop)"
  then have "processCpuProfile lc uuid p = None"
    by (simp add: processCpuProfile_None)
  with k show "step lc s (StopSettled k (Some p) uuid)
          = s\<lparr>session := (session s)(t := None), tasks := (tasks s)(k := None)\<rparr>"
    by simp
qed

theorem empty_profile_reports_nothing_witness:
  "ids empty_profile = []
   \<and> processCpuProfile canonCompare 0 empty_profile = None
   \<and> effects (step canonCompare
        (step canonCompare
          (step canonCompare
            (step canonCompare initial_state (ResponsiveChange (0::nat) True False))
            (StartSettled 0 True))
          (WaitResolved 0))
        (StopSettled 0 (Some empty_profile) 0))
      = [StartExtensionHostProfile 0, SessionStop 0]"
proof -
  have e: "ids empty_profile = []"
    by (simp add: empty_profile_def)
  let ?s = "step canonCompare
          (step canonCompare
            (step canonCompare initial_state (ResponsiveChange (0::nat) True False))
            (StartSettled 0 True))
          (WaitResolved 0)"
  have k: "tasks ?s 0 = Some (0, AwaitStop)"
    by (simp add: initial_state_def)
  have ef: "effects ?s = [StartExtensionHostProfile 0, SessionStop 0]"
    by (simp add: initial_state_def)
  from empty_profile_reports_nothing [of canonCompare 0 empty_profile ?s 0 0] e k
  have "processCpuProfile canonCompare 0 empty_profile = None"
    and "step canonCompare ?s (StopSettled 0 (Some empty_profile) 0)
          = ?s\<lparr>session := (session ?s)(0 := None), tasks := (tasks ?s)(0 := None)\<rparr>"
    by blast+
  with e ef show ?thesis
    by simp
qed

section \<open>The sessions\<close>

lemma session_inv_initial: "session_inv initial_state"
  by (simp add: session_inv_def initial_state_def)

lemma session_inv_cong:
  assumes "session s' = session s" and "tasks s' = tasks s" and "next_token s' = next_token s"
  shows "session_inv s' = session_inv s"
  by (simp add: session_inv_def assms)

lemma step_change_frame:
  assumes "\<not> (can \<and> \<not> isResponsive \<and> session s target = None)"
  shows "session (step lc s (ResponsiveChange target can isResponsive)) = session s"
    and "tasks (step lc s (ResponsiveChange target can isResponsive)) = tasks s"
    and "next_token (step lc s (ResponsiveChange target can isResponsive)) = next_token s"
  using assms by (cases can; cases isResponsive; cases "session s target"; simp)+

lemma step_change_start:
  assumes "can" and "\<not> isResponsive" and "session s target = None"
  shows "step lc s (ResponsiveChange target can isResponsive)
          = s\<lparr>session := (session s)(target \<mapsto> next_token s),
              tasks := (tasks s)(next_token s \<mapsto> (target, AwaitStart)),
              next_token := Suc (next_token s),
              effects := effects s @ [StartExtensionHostProfile target]\<rparr>"
  using assms by simp

lemma session_inv_start:
  assumes "session_inv s" and free: "session s target = None"
  shows "session_inv (s\<lparr>session := (session s)(target \<mapsto> next_token s),
              tasks := (tasks s)(next_token s \<mapsto> (target, AwaitStart)),
              next_token := Suc (next_token s),
              effects := es\<rparr>)"
proof -
  have a: "\<And>k t ph. tasks s k = Some (t, ph) \<Longrightarrow> session s t = Some k"
    and b: "\<And>t k. session s t = Some k \<Longrightarrow> \<exists>ph. tasks s k = Some (t, ph)"
    and c: "\<And>k t ph. tasks s k = Some (t, ph) \<Longrightarrow> k < next_token s"
    using assms(1) unfolding session_inv_def by blast+
  show ?thesis
    unfolding session_inv_def
  proof (intro conjI allI impI)
    fix k t ph
    assume "tasks (s\<lparr>session := (session s)(target \<mapsto> next_token s),
              tasks := (tasks s)(next_token s \<mapsto> (target, AwaitStart)),
              next_token := Suc (next_token s), effects := es\<rparr>) k = Some (t, ph)"
    then have k: "(k = next_token s \<and> t = target) \<or> (k \<noteq> next_token s \<and> tasks s k = Some (t, ph))"
      by (simp split: if_splits)
    show "session (s\<lparr>session := (session s)(target \<mapsto> next_token s),
              tasks := (tasks s)(next_token s \<mapsto> (target, AwaitStart)),
              next_token := Suc (next_token s), effects := es\<rparr>) t = Some k"
    proof (cases "k = next_token s")
      case True
      with k show ?thesis by simp
    next
      case False
      with k have tk: "tasks s k = Some (t, ph)" by simp
      then have "session s t = Some k" by (rule a)
      moreover from this free have "t \<noteq> target" by auto
      ultimately show ?thesis by simp
    qed
    show "k < next_token (s\<lparr>session := (session s)(target \<mapsto> next_token s),
              tasks := (tasks s)(next_token s \<mapsto> (target, AwaitStart)),
              next_token := Suc (next_token s), effects := es\<rparr>)"
    proof (cases "k = next_token s")
      case True
      then show ?thesis by simp
    next
      case False
      with k have "tasks s k = Some (t, ph)" by simp
      then have "k < next_token s" by (rule c)
      then show ?thesis by simp
    qed
  next
    fix t k
    assume s': "session (s\<lparr>session := (session s)(target \<mapsto> next_token s),
              tasks := (tasks s)(next_token s \<mapsto> (target, AwaitStart)),
              next_token := Suc (next_token s), effects := es\<rparr>) t = Some k"
    show "\<exists>ph. tasks (s\<lparr>session := (session s)(target \<mapsto> next_token s),
              tasks := (tasks s)(next_token s \<mapsto> (target, AwaitStart)),
              next_token := Suc (next_token s), effects := es\<rparr>) k = Some (t, ph)"
    proof (cases "t = target")
      case True
      with s' show ?thesis by simp
    next
      case False
      with s' have st: "session s t = Some k" by simp
      then obtain ph where ph: "tasks s k = Some (t, ph)" using b by blast
      then have "k < next_token s" by (rule c)
      with ph show ?thesis by simp
    qed
  qed
qed

lemma session_inv_change:
  assumes "session_inv s"
  shows "session_inv (step lc s (ResponsiveChange target can isResponsive))"
proof (cases "can \<and> \<not> isResponsive \<and> session s target = None")
  case True
  then have free: "session s target = None" and c: "can" and r: "\<not> isResponsive"
    by simp_all
  from c r free have "step lc s (ResponsiveChange target can isResponsive)
          = s\<lparr>session := (session s)(target \<mapsto> next_token s),
              tasks := (tasks s)(next_token s \<mapsto> (target, AwaitStart)),
              next_token := Suc (next_token s),
              effects := effects s @ [StartExtensionHostProfile target]\<rparr>"
    by (rule step_change_start)
  then show ?thesis
    using session_inv_start [OF assms free] by simp
next
  case False
  then show ?thesis
    using assms session_inv_cong [OF step_change_frame [OF False]] by blast
qed

lemma session_inv_remove:
  assumes "session_inv s" and "tasks s k = Some (target, ph)"
  shows "session_inv (s\<lparr>session := (session s)(target := None), tasks := (tasks s)(k := None)\<rparr>)"
proof -
  have a: "\<And>k t ph. tasks s k = Some (t, ph) \<Longrightarrow> session s t = Some k"
    and b: "\<And>t k. session s t = Some k \<Longrightarrow> \<exists>ph. tasks s k = Some (t, ph)"
    and c: "\<And>k t ph. tasks s k = Some (t, ph) \<Longrightarrow> k < next_token s"
    using assms(1) unfolding session_inv_def by blast+
  have st: "session s target = Some k"
    using a assms(2) by blast
  show ?thesis
    unfolding session_inv_def
  proof (intro conjI allI impI)
    fix k' t ph'
    assume "tasks (s\<lparr>session := (session s)(target := None), tasks := (tasks s)(k := None)\<rparr>) k'
              = Some (t, ph')"
    then have k': "k' \<noteq> k" "tasks s k' = Some (t, ph')"
      by (auto split: if_splits)
    have "session s t = Some k'" using a k'(2) by blast
    with st k'(1) have "t \<noteq> target" by auto
    then show "session (s\<lparr>session := (session s)(target := None), tasks := (tasks s)(k := None)\<rparr>) t
              = Some k'"
      using a k'(2) by simp
    show "k' < next_token (s\<lparr>session := (session s)(target := None), tasks := (tasks s)(k := None)\<rparr>)"
      using c k'(2) by simp
  next
    fix t k'
    assume "session (s\<lparr>session := (session s)(target := None), tasks := (tasks s)(k := None)\<rparr>) t
              = Some k'"
    then have t: "t \<noteq> target" "session s t = Some k'"
      by (auto split: if_splits)
    then obtain ph' where "tasks s k' = Some (t, ph')"
      using b by blast
    moreover from this have "k' \<noteq> k"
      using assms(2) t(1) by auto
    ultimately show "\<exists>ph. tasks (s\<lparr>session := (session s)(target := None),
              tasks := (tasks s)(k := None)\<rparr>) k' = Some (t, ph)"
      by simp
  qed
qed

lemma session_inv_phase:
  assumes "session_inv s" and "tasks s k = Some (target, ph)"
  shows "session_inv (s\<lparr>tasks := (tasks s)(k \<mapsto> (target, ph'))\<rparr>)"
proof -
  have a: "\<And>k t ph. tasks s k = Some (t, ph) \<Longrightarrow> session s t = Some k"
    and b: "\<And>t k. session s t = Some k \<Longrightarrow> \<exists>ph. tasks s k = Some (t, ph)"
    and c: "\<And>k t ph. tasks s k = Some (t, ph) \<Longrightarrow> k < next_token s"
    using assms(1) unfolding session_inv_def by blast+
  show ?thesis
    unfolding session_inv_def
  proof (intro conjI allI impI)
    fix k' t ph''
    assume "tasks (s\<lparr>tasks := (tasks s)(k \<mapsto> (target, ph'))\<rparr>) k' = Some (t, ph'')"
    then have "\<exists>q. tasks s k' = Some (t, q)"
      using assms(2) by (cases "k' = k") simp_all
    then obtain q where q: "tasks s k' = Some (t, q)" by blast
    show "session (s\<lparr>tasks := (tasks s)(k \<mapsto> (target, ph'))\<rparr>) t = Some k'"
      using a [OF q] by simp
    show "k' < next_token (s\<lparr>tasks := (tasks s)(k \<mapsto> (target, ph'))\<rparr>)"
      using c [OF q] by simp
  next
    fix t k'
    assume "session (s\<lparr>tasks := (tasks s)(k \<mapsto> (target, ph'))\<rparr>) t = Some k'"
    then have st: "session s t = Some k'" by simp
    then obtain q where q: "tasks s k' = Some (t, q)" using b by blast
    show "\<exists>ph. tasks (s\<lparr>tasks := (tasks s)(k \<mapsto> (target, ph'))\<rparr>) k' = Some (t, ph)"
    proof (cases "k' = k")
      case True
      with q assms(2) show ?thesis by simp
    next
      case False
      with q show ?thesis by simp
    qed
  qed
qed

lemma step_start_settled_ok:
  assumes "tasks s k = Some (target, AwaitStart)"
  shows "step lc s (StartSettled k True) = s\<lparr>tasks := (tasks s)(k \<mapsto> (target, Waiting))\<rparr>"
  using assms by simp

lemma step_start_settled_failed:
  assumes "tasks s k = Some (target, AwaitStart)"
  shows "step lc s (StartSettled k False)
          = s\<lparr>session := (session s)(target := None), tasks := (tasks s)(k := None)\<rparr>"
  using assms by simp

lemma step_start_settled_other:
  assumes "\<forall>target. tasks s k \<noteq> Some (target, AwaitStart)"
  shows "step lc s (StartSettled k ok) = s"
proof (cases "tasks s k")
  case None
  then show ?thesis by simp
next
  case (Some a)
  obtain target ph where a: "a = (target, ph)" by (cases a)
  with Some assms have "ph \<noteq> AwaitStart" by auto
  with Some a show ?thesis by (cases ph) simp_all
qed

lemma step_wait_resolved:
  assumes "tasks s k = Some (target, Waiting)"
  shows "step lc s (WaitResolved k)
          = s\<lparr>tasks := (tasks s)(k \<mapsto> (target, AwaitStop)), effects := effects s @ [SessionStop k]\<rparr>"
  using assms by simp

lemma step_wait_resolved_other:
  assumes "\<forall>target. tasks s k \<noteq> Some (target, Waiting)"
  shows "step lc s (WaitResolved k) = s"
proof (cases "tasks s k")
  case None
  then show ?thesis by simp
next
  case (Some a)
  obtain target ph where a: "a = (target, ph)" by (cases a)
  with Some assms have "ph \<noteq> Waiting" by auto
  with Some a show ?thesis by (cases ph) simp_all
qed

lemma step_stop_settled:
  assumes "tasks s k = Some (target, AwaitStop)"
  shows "session (step lc s (StopSettled k result uuid)) = (session s)(target := None)"
    and "tasks (step lc s (StopSettled k result uuid)) = (tasks s)(k := None)"
    and "next_token (step lc s (StopSettled k result uuid)) = next_token s"
    and "cancelled (step lc s (StopSettled k result uuid)) = cancelled s"
  using assms by (simp_all add: Let_def split: option.splits)

lemma step_stop_settled_other:
  assumes "\<forall>target. tasks s k \<noteq> Some (target, AwaitStop)"
  shows "step lc s (StopSettled k result uuid) = s"
proof (cases "tasks s k")
  case None
  then show ?thesis by simp
next
  case (Some a)
  obtain target ph where a: "a = (target, ph)" by (cases a)
  with Some assms have "ph \<noteq> AwaitStop" by auto
  with Some a show ?thesis by (cases ph) simp_all
qed

lemma step_extension_settled:
  "session (step lc s (ExtensionSettled i extension path written)) = session s"
  "tasks (step lc s (ExtensionSettled i extension path written)) = tasks s"
  "next_token (step lc s (ExtensionSettled i extension path written)) = next_token s"
  by simp_all

lemma session_inv_step:
  assumes "session_inv s"
  shows "session_inv (step lc s a)"
proof (cases a)
  case (ResponsiveChange target can isResponsive)
  with assms show ?thesis by (simp only: session_inv_change)
next
  case (StartSettled k ok)
  show ?thesis
  proof (cases "\<exists>target. tasks s k = Some (target, AwaitStart)")
    case True
    then obtain target where t: "tasks s k = Some (target, AwaitStart)" by blast
    show ?thesis
    proof (cases ok)
      case True
      with t StartSettled session_inv_phase [OF assms t, of Waiting] show ?thesis
        by (simp only: step_start_settled_ok)
    next
      case False
      with t StartSettled session_inv_remove [OF assms t] show ?thesis
        by (simp only: step_start_settled_failed)
    qed
  next
    case False
    then have "step lc s (StartSettled k ok) = s"
      by (intro step_start_settled_other) blast
    with assms StartSettled show ?thesis by simp
  qed
next
  case (WaitResolved k)
  show ?thesis
  proof (cases "\<exists>target. tasks s k = Some (target, Waiting)")
    case True
    then obtain target where t: "tasks s k = Some (target, Waiting)" by blast
    have "session_inv (s\<lparr>tasks := (tasks s)(k \<mapsto> (target, AwaitStop)), effects := effects s @ [SessionStop k]\<rparr>)
        = session_inv (s\<lparr>tasks := (tasks s)(k \<mapsto> (target, AwaitStop))\<rparr>)"
      by (rule session_inv_cong) simp_all
    with t WaitResolved session_inv_phase [OF assms t, of AwaitStop] show ?thesis
      by (simp only: step_wait_resolved)
  next
    case False
    then have "step lc s (WaitResolved k) = s"
      by (intro step_wait_resolved_other) blast
    with assms WaitResolved show ?thesis by simp
  qed
next
  case (StopSettled k result uuid)
  show ?thesis
  proof (cases "\<exists>target. tasks s k = Some (target, AwaitStop)")
    case True
    then obtain target where t: "tasks s k = Some (target, AwaitStop)" by blast
    have "session_inv (step lc s (StopSettled k result uuid))
        = session_inv (s\<lparr>session := (session s)(target := None), tasks := (tasks s)(k := None)\<rparr>)"
      by (rule session_inv_cong) (simp_all only: step_stop_settled [OF t], simp_all)
    with StopSettled session_inv_remove [OF assms t] show ?thesis
      by simp
  next
    case False
    then have "step lc s (StopSettled k result uuid) = s"
      by (intro step_stop_settled_other) blast
    with assms StopSettled show ?thesis by simp
  qed
next
  case (ExtensionSettled i extension path written)
  have "session_inv (step lc s (ExtensionSettled i extension path written)) = session_inv s"
    by (rule session_inv_cong) (rule step_extension_settled)+
  with assms ExtensionSettled show ?thesis by simp
qed

lemma session_inv_run: "session_inv (run lc acts)"
proof (induction acts rule: rev_induct)
  case Nil
  show ?case by (simp add: run_def session_inv_initial)
next
  case (snoc a acts)
  then show ?case by (simp add: run_def session_inv_step)
qed

lemma step_change_second:
  "step lc (step lc s (ResponsiveChange t True False)) (ResponsiveChange t can False)
     = step lc s (ResponsiveChange t True False)"
  by (cases "session s t") simp_all

lemma run_two_unresponsive_events:
  "run canonCompare two_unresponsive_events
     = \<lparr>session = [0 \<mapsto> 0], cancelled = {}, tasks = [0 \<mapsto> (0, Waiting)], pending = [],
        next_token = 1, effects = [StartExtensionHostProfile 0]\<rparr>"
  by (simp add: run_def two_unresponsive_events_def initial_state_def)

lemma waiting_start_eq:
  "waiting_start = \<lparr>session = [0 \<mapsto> 0], cancelled = {}, tasks = [0 \<mapsto> (0, AwaitStart)], pending = [],
        next_token = 1, effects = [StartExtensionHostProfile 0]\<rparr>"
  by (simp add: waiting_start_def initial_state_def)

lemma waiting_stop_eq:
  "waiting_stop = \<lparr>session = [0 \<mapsto> 0], cancelled = {}, tasks = [0 \<mapsto> (0, AwaitStop)], pending = [],
        next_token = 1, effects = [StartExtensionHostProfile 0, SessionStop 0]\<rparr>"
  by (simp add: waiting_stop_def waiting_start_eq)

lemma step_ends_task:
  assumes "tasks s k = Some (t, ph)" and "tasks (step lc s a) k = None"
  shows "session (step lc s a) t = None"
proof (cases a)
  case (ResponsiveChange target can isResponsive)
  have "tasks (step lc s (ResponsiveChange target can isResponsive)) k \<noteq> None"
    using assms(1) by (cases can; cases isResponsive; cases "session s target") simp_all
  with assms(2) ResponsiveChange show ?thesis by simp
next
  case (StartSettled k' ok)
  show ?thesis
  proof (cases "\<exists>target. tasks s k' = Some (target, AwaitStart)")
    case True
    then obtain target where t: "tasks s k' = Some (target, AwaitStart)" by blast
    show ?thesis
    proof (cases ok)
      case True
      with t assms StartSettled show ?thesis by (auto split: if_splits)
    next
      case False
      with t assms StartSettled show ?thesis by (auto split: if_splits)
    qed
  next
    case False
    then have "step lc s (StartSettled k' ok) = s"
      by (intro step_start_settled_other) blast
    with assms StartSettled show ?thesis by simp
  qed
next
  case (WaitResolved k')
  show ?thesis
  proof (cases "\<exists>target. tasks s k' = Some (target, Waiting)")
    case True
    then obtain target where t: "tasks s k' = Some (target, Waiting)" by blast
    with assms WaitResolved show ?thesis by (auto split: if_splits)
  next
    case False
    then have "step lc s (WaitResolved k') = s"
      by (intro step_wait_resolved_other) blast
    with assms WaitResolved show ?thesis by simp
  qed
next
  case (StopSettled k' result uuid)
  show ?thesis
  proof (cases "\<exists>target. tasks s k' = Some (target, AwaitStop)")
    case True
    then obtain target where t: "tasks s k' = Some (target, AwaitStop)" by blast
    have "session (step lc s a) t = ((session s)(target := None)) t"
      and "tasks (step lc s a) k = ((tasks s)(k' := None)) k"
      unfolding StopSettled by (simp_all only: step_stop_settled [OF t])
    with assms t show ?thesis
      by (auto split: if_splits)
  next
    case False
    then have "step lc s (StopSettled k' result uuid) = s"
      by (intro step_stop_settled_other) blast
    with assms StopSettled show ?thesis by simp
  qed
next
  case (ExtensionSettled i extension path written)
  have "tasks (step lc s a) = tasks s"
    unfolding ExtensionSettled by (rule step_extension_settled)
  with assms show ?thesis by simp
qed

text \<open>
  Claim C2. In every state the class reaches, a target has at most one task, that is at
  most one invocation between the insertion of its entry and the removal, and so at most
  one session: two tasks of one target are the same task, and a target has a task
  exactly when it has an entry. The event that finds no entry inserts one in the piece
  that handles the event, before the first \<^verbatim>\<open>await\<close>; a second event for the target
  that follows it changes nothing, and neither does any event for a target that is not
  responsive while the target has a task.
\<close>

theorem at_most_one_session:
  "(\<forall>k1 k2 ph1 ph2. tasks (run lc acts) k1 = Some (t, ph1) \<longrightarrow> tasks (run lc acts) k2 = Some (t, ph2)
        \<longrightarrow> k1 = k2)
   \<and> ((\<exists>k ph. tasks (run lc acts) k = Some (t, ph)) = (session (run lc acts) t \<noteq> None))
   \<and> step lc (step lc (run lc acts) (ResponsiveChange t True False)) (ResponsiveChange t can False)
        = step lc (run lc acts) (ResponsiveChange t True False)
   \<and> ((\<exists>k ph. tasks (run lc acts) k = Some (t, ph)) \<longrightarrow>
        step lc (run lc acts) (ResponsiveChange t can False) = run lc acts)"
proof (intro conjI allI impI)
  have inv: "session_inv (run lc acts)" by (rule session_inv_run)
  have a: "\<And>k t ph. tasks (run lc acts) k = Some (t, ph) \<Longrightarrow> session (run lc acts) t = Some k"
    and b: "\<And>t k. session (run lc acts) t = Some k \<Longrightarrow> \<exists>ph. tasks (run lc acts) k = Some (t, ph)"
    using inv unfolding session_inv_def by blast+
  {
    fix k1 k2 ph1 ph2
    assume "tasks (run lc acts) k1 = Some (t, ph1)" and "tasks (run lc acts) k2 = Some (t, ph2)"
    then have "session (run lc acts) t = Some k1" and "session (run lc acts) t = Some k2"
      using a by blast+
    then show "k1 = k2" by simp
  }
  show "(\<exists>k ph. tasks (run lc acts) k = Some (t, ph)) = (session (run lc acts) t \<noteq> None)"
  proof
    assume "\<exists>k ph. tasks (run lc acts) k = Some (t, ph)"
    then obtain k ph where "tasks (run lc acts) k = Some (t, ph)" by blast
    then have "session (run lc acts) t = Some k" by (rule a)
    then show "session (run lc acts) t \<noteq> None" by simp
  next
    assume "session (run lc acts) t \<noteq> None"
    then obtain k where "session (run lc acts) t = Some k" by blast
    then show "\<exists>k ph. tasks (run lc acts) k = Some (t, ph)" using b by blast
  qed
  show "step lc (step lc (run lc acts) (ResponsiveChange t True False)) (ResponsiveChange t can False)
        = step lc (run lc acts) (ResponsiveChange t True False)"
    by (rule step_change_second)
  assume "\<exists>k ph. tasks (run lc acts) k = Some (t, ph)"
  then obtain k ph where "tasks (run lc acts) k = Some (t, ph)" by blast
  then have "session (run lc acts) t = Some k" by (rule a)
  then show "step lc (run lc acts) (ResponsiveChange t can False) = run lc acts"
    by simp
qed

theorem at_most_one_session_witness:
  "tasks (run canonCompare two_unresponsive_events) 0 = Some (0, Waiting)
   \<and> tasks (run canonCompare two_unresponsive_events) 1 = None
   \<and> session (run canonCompare two_unresponsive_events) 0 = Some 0
   \<and> effects (run canonCompare two_unresponsive_events) = [StartExtensionHostProfile 0]"
proof -
  have t0: "tasks (run canonCompare two_unresponsive_events) 0 = Some (0, Waiting)"
    by (simp add: run_two_unresponsive_events)
  have "\<exists>k ph. tasks (run canonCompare two_unresponsive_events) k = Some (0, ph)"
    using t0 by blast
  then have "session (run canonCompare two_unresponsive_events) 0 \<noteq> None"
    using at_most_one_session [of canonCompare two_unresponsive_events 0 True] by simp
  then show ?thesis
    by (simp add: run_two_unresponsive_events)
qed

text \<open>
  Claim C7. The entry that a task inserted is removed on every path on which the task
  ends: when the start of the session fails, and when \<^verbatim>\<open>session.stop()\<close> settles
  after the wait, whether it gives a profile or fails. Every step that ends a task
  leaves its target without an entry.
\<close>

theorem entry_removed_on_termination:
  "(tasks s k = Some (t, AwaitStart) \<longrightarrow>
      tasks (step lc s (StartSettled k False)) k = None
      \<and> session (step lc s (StartSettled k False)) t = None)
   \<and> (tasks s k = Some (t, AwaitStop) \<longrightarrow>
      tasks (step lc s (StopSettled k result uuid)) k = None
      \<and> session (step lc s (StopSettled k result uuid)) t = None)
   \<and> (tasks s k = Some (t, ph) \<longrightarrow> tasks (step lc s a) k = None \<longrightarrow> session (step lc s a) t = None)"
proof (intro conjI impI)
  assume "tasks s k = Some (t, AwaitStart)"
  then show "tasks (step lc s (StartSettled k False)) k = None"
    and "session (step lc s (StartSettled k False)) t = None"
    by simp_all
next
  assume t: "tasks s k = Some (t, AwaitStop)"
  show "tasks (step lc s (StopSettled k result uuid)) k = None"
    and "session (step lc s (StopSettled k result uuid)) t = None"
    by (simp_all only: step_stop_settled [OF t], simp_all)
next
  assume "tasks s k = Some (t, ph)" and "tasks (step lc s a) k = None"
  then show "session (step lc s a) t = None"
    by (rule step_ends_task)
qed

theorem entry_removed_on_termination_witness:
  "tasks waiting_start 0 = Some (0, AwaitStart)
   \<and> session waiting_start 0 = Some 0
   \<and> session (step canonCompare waiting_start (StartSettled 0 False)) 0 = None
   \<and> tasks waiting_stop 0 = Some (0, AwaitStop)
   \<and> session waiting_stop 0 = Some 0
   \<and> session (step canonCompare waiting_stop (StopSettled 0 None 0)) 0 = None
   \<and> session (step canonCompare waiting_stop (StopSettled 0 (Some scenario1) 0)) 0 = None"
proof -
  have a: "tasks waiting_start 0 = Some (0, AwaitStart)" and a': "session waiting_start 0 = Some 0"
    by (simp_all add: waiting_start_eq)
  have b: "tasks waiting_stop 0 = Some (0, AwaitStop)" and b': "session waiting_stop 0 = Some 0"
    by (simp_all add: waiting_stop_eq)
  from a entry_removed_on_termination [of waiting_start 0 0 canonCompare]
  have 1: "session (step canonCompare waiting_start (StartSettled 0 False)) 0 = None"
    by blast
  from b entry_removed_on_termination [of waiting_stop 0 0 canonCompare None 0]
  have 2: "session (step canonCompare waiting_stop (StopSettled 0 None 0)) 0 = None"
    by blast
  from b entry_removed_on_termination [of waiting_stop 0 0 canonCompare "Some scenario1" 0]
  have 3: "session (step canonCompare waiting_stop (StopSettled 0 (Some scenario1) 0)) 0 = None"
    by blast
  from a a' b b' 1 2 3 show ?thesis by blast
qed

text \<open>
  Claim C8. When the start of the session fails, the class removes the entry and the
  task and does nothing else: no effect is added, so no error is reported and nothing is
  logged. Taken together with the event that inserted the entry, the session table and
  the tasks are what they were before the event; what remains is the call of
  \<^verbatim>\<open>startExtensionHostProfile\<close> and the number given to the token.
\<close>

theorem failed_start_is_silent:
  "(tasks s k = Some (t, AwaitStart) \<longrightarrow>
      step lc s (StartSettled k False)
        = s\<lparr>session := (session s)(t := None), tasks := (tasks s)(k := None)\<rparr>)
   \<and> (session (run lc acts) t = None \<longrightarrow>
      step lc (step lc (run lc acts) (ResponsiveChange t True False)) (StartSettled (next_token (run lc acts)) False)
        = (run lc acts)\<lparr>next_token := Suc (next_token (run lc acts)),
                         effects := effects (run lc acts) @ [StartExtensionHostProfile t]\<rparr>)"
proof (intro conjI impI)
  assume "tasks s k = Some (t, AwaitStart)"
  then show "step lc s (StartSettled k False)
        = s\<lparr>session := (session s)(t := None), tasks := (tasks s)(k := None)\<rparr>"
    by simp
next
  let ?s = "run lc acts"
  assume free: "session ?s t = None"
  have "session_inv ?s" by (rule session_inv_run)
  then have "\<And>t ph. tasks ?s (next_token ?s) \<noteq> Some (t, ph)"
    unfolding session_inv_def by (metis less_irrefl)
  then have none: "tasks ?s (next_token ?s) = None"
    by (cases "tasks ?s (next_token ?s)") auto
  have "(session ?s)(t := None) = session ?s"
    using free by (simp add: fun_upd_idem)
  moreover have "(tasks ?s)(next_token ?s := None) = tasks ?s"
    using none by (simp add: fun_upd_idem)
  ultimately show "step lc (step lc ?s (ResponsiveChange t True False)) (StartSettled (next_token ?s) False)
        = ?s\<lparr>next_token := Suc (next_token ?s), effects := effects ?s @ [StartExtensionHostProfile t]\<rparr>"
    using free by simp
qed

theorem failed_start_is_silent_witness:
  "session (run canonCompare []) (0::nat) = None
   \<and> tasks (step canonCompare (run canonCompare []) (ResponsiveChange (0::nat) True False)) 0
        = Some (0, AwaitStart)
   \<and> step canonCompare (step canonCompare (run canonCompare []) (ResponsiveChange (0::nat) True False))
        (StartSettled 0 False)
      = \<lparr>session = Map.empty, cancelled = {}, tasks = Map.empty, pending = [],
         next_token = 1, effects = [StartExtensionHostProfile 0]\<rparr>"
proof -
  have r: "run canonCompare [] = (initial_state :: nat state)"
    by (simp add: run_def)
  have free: "session (run canonCompare []) (0::nat) = None"
    by (simp add: r initial_state_def)
  have n: "next_token (run canonCompare [] :: nat state) = 0"
    by (simp add: r initial_state_def)
  have t: "tasks (step canonCompare (run canonCompare []) (ResponsiveChange (0::nat) True False)) 0
        = Some (0, AwaitStart)"
    by (simp add: r initial_state_def)
  from failed_start_is_silent [of _ _ "0::nat" canonCompare "[]"] free
  have "step canonCompare (step canonCompare (run canonCompare []) (ResponsiveChange (0::nat) True False))
          (StartSettled (next_token (run canonCompare [] :: nat state)) False)
        = (run canonCompare [])\<lparr>next_token := Suc (next_token (run canonCompare [] :: nat state)),
             effects := effects (run canonCompare [] :: nat state) @ [StartExtensionHostProfile 0]\<rparr>"
    by blast
  then have "step canonCompare (step canonCompare (run canonCompare []) (ResponsiveChange (0::nat) True False))
        (StartSettled 0 False)
      = \<lparr>session = Map.empty, cancelled = {}, tasks = Map.empty, pending = [],
         next_token = 1, effects = [StartExtensionHostProfile 0]\<rparr>"
    unfolding n by (simp add: r initial_state_def)
  with free t show ?thesis by blast
qed

text \<open>
  Claim C9. An event for a target that cannot be profiled, an event for a responsive
  target that has no entry, and an event for a target that is not responsive and has an
  entry change nothing: the state after the event, its session table and its effects
  included, is the state before it.
\<close>

theorem noop_paths:
  "(\<not> can \<longrightarrow> step lc s (ResponsiveChange t can isResponsive) = s)
   \<and> (session s t = None \<longrightarrow> step lc s (ResponsiveChange t can True) = s)
   \<and> (session s t \<noteq> None \<longrightarrow> step lc s (ResponsiveChange t can False) = s)"
  by simp

theorem noop_paths_witness:
  "step canonCompare waiting_start (ResponsiveChange 0 False True) = waiting_start
   \<and> step canonCompare waiting_start (ResponsiveChange 0 False False) = waiting_start
   \<and> session waiting_start 1 = None
   \<and> step canonCompare waiting_start (ResponsiveChange 1 True True) = waiting_start
   \<and> session waiting_start 0 \<noteq> None
   \<and> step canonCompare waiting_start (ResponsiveChange 0 True False) = waiting_start"
proof -
  have f: "session waiting_start 1 = None" and h: "session waiting_start 0 \<noteq> None"
    by (simp_all add: waiting_start_eq)
  from noop_paths [of False canonCompare waiting_start 0 True]
  have 1: "step canonCompare waiting_start (ResponsiveChange 0 False True) = waiting_start"
    by blast
  from noop_paths [of False canonCompare waiting_start 0 False]
  have 2: "step canonCompare waiting_start (ResponsiveChange 0 False False) = waiting_start"
    by blast
  from f noop_paths [of True canonCompare waiting_start 1]
  have 3: "step canonCompare waiting_start (ResponsiveChange 1 True True) = waiting_start"
    by blast
  from h noop_paths [of True canonCompare waiting_start 0]
  have 4: "step canonCompare waiting_start (ResponsiveChange 0 True False) = waiting_start"
    by blast
  from f h 1 2 3 4 show ?thesis by blast
qed

end
